theory Spec2Isabelle
  imports Complex_Main
begin

section \<open>Text\<close>

text \<open>
  Python strings are modelled as HOL strings whose characters are read as the code
  points 0 to 255.  \<open>is_space\<close> is the character class behind \<^verbatim>\<open>\s\<close> and
  \<^verbatim>\<open>str.strip()\<close> on that range, \<open>is_digit\<close> the class behind \<^verbatim>\<open>\d\<close>.
\<close>

definition newline :: char where
  "newline = CHR 0x0A"

definition is_space :: "char \<Rightarrow> bool" where
  "is_space c = ((of_char c :: nat) \<in> {9, 10, 11, 12, 13, 28, 29, 30, 31, 32, 133, 160})"

definition is_digit :: "char \<Rightarrow> bool" where
  "is_digit c = (48 \<le> (of_char c :: nat) \<and> (of_char c :: nat) \<le> 57)"

definition strip :: "string \<Rightarrow> string" where
  "strip s = rev (dropWhile is_space (rev (dropWhile is_space s)))"

text \<open>\<^verbatim>\<open>str.lower()\<close> on code points 0 to 255: A-Z and the Latin-1 capitals.\<close>

definition lower_char :: "char \<Rightarrow> char" where
  "lower_char c =
     (let n = (of_char c :: nat)
      in if (65 \<le> n \<and> n \<le> 90) \<or> (192 \<le> n \<and> n \<le> 222 \<and> n \<noteq> 215)
         then char_of (n + 32) else c)"

definition lower :: "string \<Rightarrow> string" where
  "lower s = map lower_char s"

text \<open>\<^verbatim>\<open>s.split(sep)[-1]\<close> for a one-character separator: the text after its last
  occurrence, the whole text when it does not occur.\<close>

definition split_last :: "char \<Rightarrow> string \<Rightarrow> string" where
  "split_last sep s = rev (takeWhile (\<lambda>c. c \<noteq> sep) (rev s))"

section \<open>The parsed message\<close>

text \<open>
  \<^verbatim>\<open>email.parser.Parser().parsestr\<close> belongs to the standard library; the analyzer
  only reads the resulting message through \<^verbatim>\<open>items\<close>, \<^verbatim>\<open>get\<close> and \<^verbatim>\<open>get_all\<close>.
  A message is therefore the list of its (name, value) header pairs in physical order.
  Header names are matched without regard to case.
\<close>

type_synonym message = "(string \<times> string) list"

definition msg_get :: "string \<Rightarrow> string \<Rightarrow> message \<Rightarrow> string" where
  "msg_get name failobj msg =
     (case filter (\<lambda>(k, v). lower k = lower name) msg of
        [] \<Rightarrow> failobj
      | (k, v) # _ \<Rightarrow> v)"

definition msg_get_all :: "string \<Rightarrow> message \<Rightarrow> string list" where
  "msg_get_all name msg = map snd (filter (\<lambda>(k, v). lower k = lower name) msg)"

text \<open>
  A Python \<^verbatim>\<open>dict\<close> keeps its keys in order of first insertion; storing under a key
  that is already present replaces the value in place.  \<^verbatim>\<open>dict(pairs)\<close> stores the
  pairs one after the other.
\<close>

fun dict_set :: "'k \<Rightarrow> 'v \<Rightarrow> ('k \<times> 'v) list \<Rightarrow> ('k \<times> 'v) list" where
  "dict_set k v [] = [(k, v)]"
| "dict_set k v ((k', v') # d) =
     (if k' = k then (k', v) # d else (k', v') # dict_set k v d)"

definition py_dict :: "('k \<times> 'v) list \<Rightarrow> ('k \<times> 'v) list" where
  "py_dict pairs = foldl (\<lambda>d (k, v). dict_set k v d) [] pairs"

section \<open>Timestamps\<close>

text \<open>
  A \<^verbatim>\<open>datetime\<close> as \<^verbatim>\<open>email.utils.parsedate_to_datetime\<close> builds it: a wall-clock
  reading in whole seconds (the six calendar fields, counted from a fixed origin) and
  either a fixed UTC offset in seconds (an aware value) or none (a naive value, which
  the library returns for the zone \<^verbatim>\<open>-0000\<close> and for a zone it cannot read).
  Python orders and subtracts two aware values by their UTC instants, two naive values
  by their wall-clock readings, and raises \<^verbatim>\<open>TypeError\<close> for one of each.
\<close>

datatype py_error = TypeError

record datetime =
  wall :: int
  utcoffset :: "int option"

definition dt_less :: "datetime \<Rightarrow> datetime \<Rightarrow> py_error + bool" where
  "dt_less a b =
     (case (utcoffset a, utcoffset b) of
        (None, None) \<Rightarrow> Inr (wall a < wall b)
      | (Some oa, Some ob) \<Rightarrow> Inr (wall a - oa < wall b - ob)
      | _ \<Rightarrow> Inl TypeError)"

text \<open>\<^verbatim>\<open>(a - b).total_seconds()\<close>\<close>

definition dt_diff_seconds :: "datetime \<Rightarrow> datetime \<Rightarrow> py_error + int" where
  "dt_diff_seconds a b =
     (case (utcoffset a, utcoffset b) of
        (None, None) \<Rightarrow> Inr (wall a - wall b)
      | (Some oa, Some ob) \<Rightarrow> Inr ((wall a - oa) - (wall b - ob))
      | _ \<Rightarrow> Inl TypeError)"

section \<open>Library functions and field patterns taken as parameters\<close>

text \<open>
  The standard-library calls of the analyzer are parameters of the model:
  \<^verbatim>\<open>parsedate_to_datetime\<close> (\<open>None\<close> when it raises), \<^verbatim>\<open>strftime\<close> (\<open>None\<close> when
  it raises), \<^verbatim>\<open>parseaddr\<close>, and the address tests of \<^verbatim>\<open>ipaddress\<close>.  So are the
  regular-expression searches that fill the \<^verbatim>\<open>from\<close>, \<^verbatim>\<open>by\<close>, \<^verbatim>\<open>with\<close> and
  \<^verbatim>\<open>ip\<close> fields of a hop and that look for an asserted client address: every
  result below holds whatever they return.
\<close>

record lib =
  parsedate_to_datetime :: "string \<Rightarrow> datetime option"
  strftime :: "datetime \<Rightarrow> string option"
  parseaddr :: "string \<Rightarrow> string \<times> string"
  search_from :: "string \<Rightarrow> string option"
  search_by :: "string \<Rightarrow> string option"
  search_with :: "string \<Rightarrow> string option"
  extract_ip_from_text :: "string \<Rightarrow> string"
  search_client_ip :: "string \<Rightarrow> string option"
  is_valid_ip :: "string \<Rightarrow> bool"
  is_private_ip :: "string \<Rightarrow> bool"

section \<open>Relay hops\<close>

text \<open>
  The dictionary built by \<^verbatim>\<open>_parse_received_header\<close>.  The \<^verbatim>\<open>blacklist\<close> slot can
  hold \<^verbatim>\<open>True\<close>, \<^verbatim>\<open>False\<close> or \<^verbatim>\<open>None\<close> in Python; \<^verbatim>\<open>delay\<close> holds the
  integer 0 or a float number of seconds.
\<close>

record relay =
  hop :: nat
  from_field :: string
  by_field :: string
  with_field :: string
  time :: string
  time_dt :: "datetime option"
  delay :: rat
  blacklist :: "bool option"
  ip :: string

subsection \<open>The timestamp pattern\<close>

text \<open>
  \<^verbatim>\<open>re.search(r';\s*(.+)$', header)\<close>, no flags: \<^verbatim>\<open>.\<close> is any character but a
  newline, \<^verbatim>\<open>$\<close> holds at the end of the text and just before a newline that ends it.

  \<open>match_dot_plus_eol\<close> is \<^verbatim>\<open>(.+)$\<close> at the start of a text: the greedy group takes
  the whole run of non-newline characters; giving characters back cannot help, since
  \<^verbatim>\<open>$\<close> fails in front of a character that is not a newline.
  \<open>match_time\<close> is \<^verbatim>\<open>\s*(.+)$\<close>: the greedy \<^verbatim>\<open>\s*\<close> first takes the whole run of
  whitespace and then gives it back one character at a time.
  \<open>search_time\<close> tries every position from the left and returns group 1 of the first
  match.
\<close>

definition match_dot_plus_eol :: "string \<Rightarrow> string option" where
  "match_dot_plus_eol t =
     (let g = takeWhile (\<lambda>c. c \<noteq> newline) t;
          r = dropWhile (\<lambda>c. c \<noteq> newline) t
      in if g \<noteq> [] \<and> (r = [] \<or> r = [newline]) then Some g else None)"

fun match_time_from :: "nat \<Rightarrow> string \<Rightarrow> string option" where
  "match_time_from 0 t = match_dot_plus_eol t"
| "match_time_from (Suc j) t =
     (case match_dot_plus_eol (drop (Suc j) t) of
        Some g \<Rightarrow> Some g
      | None \<Rightarrow> match_time_from j t)"

definition match_time :: "string \<Rightarrow> string option" where
  "match_time t = match_time_from (length (takeWhile is_space t)) t"

fun search_time :: "string \<Rightarrow> string option" where
  "search_time [] = None"
| "search_time (c # t) =
     (if c = CHR '';'' then
        (case match_time t of Some g \<Rightarrow> Some g | None \<Rightarrow> search_time t)
      else search_time t)"

text \<open>The timestamp text of a header: \<^verbatim>\<open>time_match.group(1).strip()\<close>, when the pattern
  matches.\<close>

definition timestamp_text :: "string \<Rightarrow> string option" where
  "timestamp_text header = map_option strip (search_time header)"

subsection \<open>Parsing one Received header\<close>

definition new_relay :: "nat \<Rightarrow> relay" where
  "new_relay n =
     \<lparr>hop = n, from_field = [], by_field = [], with_field = [], time = [],
      time_dt = None, delay = 0, blacklist = Some True, ip = []\<rparr>"

text \<open>The timestamp step of \<^verbatim>\<open>_parse_received_header\<close>: the \<^verbatim>\<open>try\<close> block assigns
  \<^verbatim>\<open>time_dt\<close> first and the formatted \<^verbatim>\<open>time\<close> second; the \<^verbatim>\<open>except\<close> branch stores the
  raw text.\<close>

definition set_time :: "lib \<Rightarrow> string \<Rightarrow> relay \<Rightarrow> relay" where
  "set_time L header r =
     (case timestamp_text header of
        None \<Rightarrow> r
      | Some time_str \<Rightarrow>
          (case parsedate_to_datetime L time_str of
             None \<Rightarrow> r\<lparr>time := time_str\<rparr>
           | Some d \<Rightarrow>
               (case strftime L d of
                  None \<Rightarrow> r\<lparr>time_dt := Some d, time := time_str\<rparr>
                | Some f \<Rightarrow> r\<lparr>time_dt := Some d, time := f\<rparr>)))"

definition parse_received_header :: "lib \<Rightarrow> string \<Rightarrow> nat \<Rightarrow> relay" where
  "parse_received_header L header n =
     (let r0 = new_relay n;
          r1 = (case search_from L header of None \<Rightarrow> r0 | Some g \<Rightarrow> r0\<lparr>from_field := strip g\<rparr>);
          r2 = (case search_by L header of None \<Rightarrow> r1 | Some g \<Rightarrow> r1\<lparr>by_field := strip g\<rparr>);
          r3 = (case search_with L header of None \<Rightarrow> r2 | Some g \<Rightarrow> r2\<lparr>with_field := strip g\<rparr>);
          r4 = set_time L header r3
      in r4\<lparr>ip := extract_ip_from_text L (from_field r4)\<rparr>)"

subsection \<open>The relay chain\<close>

text \<open>\<^verbatim>\<open>for idx, r in enumerate(relays, 1): r['hop'] = idx\<close>\<close>

definition renumber :: "relay list \<Rightarrow> relay list" where
  "renumber rs = map (\<lambda>(idx, r). r\<lparr>hop := idx\<rparr>) (zip [1 ..< Suc (length rs)] rs)"

text \<open>The first loop of \<^verbatim>\<open>_process_relays\<close>: one hop per header, numbered from 1 over the
  reversed header list.\<close>

definition numbered_relays :: "lib \<Rightarrow> string list \<Rightarrow> relay list" where
  "numbered_relays L received_list =
     map (\<lambda>(idx, rec). parse_received_header L rec idx)
       (zip [1 ..< Suc (length received_list)] (rev received_list))"

definition process_relays :: "lib \<Rightarrow> message \<Rightarrow> py_error + relay list" where
  "process_relays L msg =
     (let relays = numbered_relays L (msg_get_all ''Received'' msg)
      in case relays of
           r0 # r1 # _ \<Rightarrow>
             (case (time_dt r0, time_dt r1) of
                (Some t0, Some t1) \<Rightarrow>
                  (case dt_less t1 t0 of
                     Inl e \<Rightarrow> Inl e
                   | Inr True \<Rightarrow> Inr (renumber (rev relays))
                   | Inr False \<Rightarrow> Inr relays)
              | _ \<Rightarrow> Inr relays)
         | _ \<Rightarrow> Inr relays)"

section \<open>Delivery delays\<close>

subsection \<open>The latency header\<close>

text \<open>
  \<^verbatim>\<open>re.search\<close> tries a pattern at every position from the left, the end of the text
  included, and returns the groups of the first match.
\<close>

fun re_search :: "(string \<Rightarrow> 'a option) \<Rightarrow> string \<Rightarrow> 'a option" where
  "re_search m [] = m []"
| "re_search m (c # t) = (case m (c # t) of Some g \<Rightarrow> Some g | None \<Rightarrow> re_search m t)"

text \<open>
  \<^verbatim>\<open>(\d{1,2}):(\d{2}):(\d{2})(?:\.(\d+))?\<close> at the start of a text.  The hours group is
  greedy: two digits first, one digit when the rest does not match after two.  The
  optional fraction takes a dot and the whole run of digits behind it when there is at
  least one; the source reads a fraction that did not take part as \<^verbatim>\<open>'0'\<close>.
\<close>

definition match_fraction :: "string \<Rightarrow> string" where
  "match_fraction t =
     (case t of
        d # f # _ \<Rightarrow> if d = CHR ''.'' \<and> is_digit f then takeWhile is_digit (tl t) else ''0''
      | _ \<Rightarrow> ''0'')"

definition match_hms_tail :: "string \<Rightarrow> (string \<times> string \<times> string) option" where
  "match_hms_tail t =
     (case t of
        c1 # m1 # m2 # c2 # s1 # s2 # rest \<Rightarrow>
          if c1 = CHR '':'' \<and> is_digit m1 \<and> is_digit m2 \<and> c2 = CHR '':'' \<and> is_digit s1 \<and> is_digit s2
          then Some ([m1, m2], [s1, s2], match_fraction rest)
          else None
      | _ \<Rightarrow> None)"

definition match_hms :: "string \<Rightarrow> (string \<times> string \<times> string \<times> string) option" where
  "match_hms t =
     (case t of
        h1 # h2 # r \<Rightarrow>
          if is_digit h1 then
            (case (if is_digit h2 then match_hms_tail r else None) of
               Some (m, s, f) \<Rightarrow> Some ([h1, h2], m, s, f)
             | None \<Rightarrow>
                 (case match_hms_tail (h2 # r) of
                    Some (m, s, f) \<Rightarrow> Some ([h1], m, s, f)
                  | None \<Rightarrow> None))
          else None
      | _ \<Rightarrow> None)"

text \<open>\<^verbatim>\<open>(\d+)\.(\d+)\<close> at the start of a text: the whole run of digits (a shorter one is
  followed by a digit, not by the dot), the dot, the whole run of digits behind it.\<close>

definition match_decimal :: "string \<Rightarrow> (string \<times> string) option" where
  "match_decimal t =
     (let ds = takeWhile is_digit t; r = dropWhile is_digit t
      in case r of
           d # f # _ \<Rightarrow>
             if ds \<noteq> [] \<and> d = CHR ''.'' \<and> is_digit f then Some (ds, takeWhile is_digit (tl r))
             else None
         | _ \<Rightarrow> None)"

text \<open>\<^verbatim>\<open>(\d+)\<close> at the start of a text.\<close>

definition match_integer :: "string \<Rightarrow> string option" where
  "match_integer t = (let ds = takeWhile is_digit t in if ds \<noteq> [] then Some ds else None)"

subsection \<open>Python numbers\<close>

text \<open>
  A Python \<^verbatim>\<open>int\<close> is an unbounded integer.  The parser applies \<^verbatim>\<open>int()\<close> only to
  groups that \<^verbatim>\<open>\d+\<close>, \<^verbatim>\<open>\d{2}\<close> or \<^verbatim>\<open>\d{1,2}\<close> matched, which are non-empty runs
  of digits.  For such a text \<^verbatim>\<open>int()\<close> returns the decimal value, unless the text has
  more digits than the interpreter's limit \<^verbatim>\<open>sys.get_int_max_str_digits()\<close>, which is
  4300 unless the interpreter is configured otherwise; then it raises
  \<^verbatim>\<open>ValueError\<close>.  \<open>py_int\<close> is \<^verbatim>\<open>ValueError\<close> on every other text as well: the
  signs, blanks and underscores that \<^verbatim>\<open>int()\<close> accepts do not occur in a group.
\<close>

datatype arith_error = ValueError | OverflowError | ZeroDivisionError

definition int_max_str_digits :: nat where
  "int_max_str_digits = 4300"

definition int_of_digits :: "string \<Rightarrow> int" where
  "int_of_digits ds = foldl (\<lambda>n c. 10 * n + (of_char c - 48)) 0 ds"

definition py_int :: "string \<Rightarrow> arith_error + int" where
  "py_int ds =
     (if ds = [] \<or> \<not> list_all is_digit ds \<or> int_max_str_digits < length ds then Inl ValueError
      else Inr (int_of_digits ds))"

text \<open>
  A Python \<^verbatim>\<open>float\<close> is an IEEE 754 binary64 number: a multiple of a power of two
  with a significand of at most 53 bits, an exponent of the unit in the last place that
  is at least -1074, and a magnitude below \<open>2 ^ 1024\<close>.  A finite float is modelled by
  the rational number it denotes, and every operation returns the float nearest to the
  exact result, the one with the even significand when two are equally near.
  \<open>bit_length\<close> is \<^verbatim>\<open>int.bit_length\<close> on the non-negative integers, \<open>floor_log2\<close>
  the exponent \<open>e\<close> with \<open>2 ^ e \<le> x < 2 ^ (e + 1)\<close> of a positive rational.
\<close>

function bit_length :: "int \<Rightarrow> int" where
  "bit_length n = (if n \<le> 0 then 0 else 1 + bit_length (n div 2))"
  by pat_completeness auto

termination
  by (relation "measure nat") auto

declare bit_length.simps [simp del]

definition floor_log2 :: "rat \<Rightarrow> int" where
  "floor_log2 x =
     (if 1 \<le> x then bit_length \<lfloor>x\<rfloor> - 1 else - bit_length (\<lceil>1 / x\<rceil> - 1))"

definition round_half_even :: "rat \<Rightarrow> int" where
  "round_half_even x =
     (let n = \<lfloor>x\<rfloor>; r = x - of_int n
      in if r < 1 / 2 then n else if 1 / 2 < r then n + 1 else if even n then n else n + 1)"

definition round_double :: "rat \<Rightarrow> rat" where
  "round_double x =
     (if x = 0 then 0
      else let ulp = 2 powi (max (floor_log2 \<bar>x\<bar> - 52) (- 1074))
           in of_int (round_half_even (x / ulp)) * ulp)"

text \<open>The bound that the magnitude of a finite float stays below.\<close>

definition double_limit :: rat where
  "double_limit = of_int (2 ^ 1024)"

text \<open>
  \<^verbatim>\<open>float(n)\<close> for an integer, also the conversion that Python applies to the integer
  operand of a mixed operation: \<^verbatim>\<open>OverflowError\<close> when the nearest float would reach
  the bound.
\<close>

definition float_of_int :: "int \<Rightarrow> arith_error + rat" where
  "float_of_int n =
     (let x = round_double (of_int n)
      in if double_limit \<le> \<bar>x\<bar> then Inl OverflowError else Inr x)"

text \<open>\<^verbatim>\<open>a / b\<close> for two integers: the float nearest to the exact quotient.\<close>

definition int_true_divide :: "int \<Rightarrow> int \<Rightarrow> arith_error + rat" where
  "int_true_divide a b =
     (if b = 0 then Inl ZeroDivisionError
      else let x = round_double (of_int a / of_int b)
           in if double_limit \<le> \<bar>x\<bar> then Inl OverflowError else Inr x)"

text \<open>
  \<^verbatim>\<open>x + y\<close> and \<^verbatim>\<open>x / y\<close> for two floats.  A sum or a quotient that reaches the
  bound would be an infinity, which is not a rational; the sums and the quotient of the
  latency parser stay below it (lemma \<open>parse_latency_header_finite\<close>).
\<close>

definition float_add :: "rat \<Rightarrow> rat \<Rightarrow> rat" where
  "float_add x y = round_double (x + y)"

definition float_true_divide :: "rat \<Rightarrow> rat \<Rightarrow> arith_error + rat" where
  "float_true_divide x y =
     (if y = 0 then Inl ZeroDivisionError else Inr (round_double (x / y)))"

text \<open>\<^verbatim>\<open>n + x\<close> for an integer and a float.\<close>

definition int_add_float :: "int \<Rightarrow> rat \<Rightarrow> arith_error + rat" where
  "int_add_float n x =
     (case float_of_int n of
        Inl e \<Rightarrow> Inl e
      | Inr y \<Rightarrow> Inr (float_add y x))"

subsection \<open>The value of a latency header\<close>

text \<open>\<^verbatim>\<open>int(fractional) / (10 ** len(fractional))\<close>\<close>

definition fractional_value :: "string \<Rightarrow> arith_error + rat" where
  "fractional_value fractional =
     (case py_int fractional of
        Inl e \<Rightarrow> Inl e
      | Inr n \<Rightarrow> int_true_divide n (10 ^ length fractional))"

text \<open>The three branches of the \<^verbatim>\<open>try\<close> block, each from the groups of its match to
  the value it returns or the exception it raises.\<close>

definition hms_seconds :: "string \<Rightarrow> string \<Rightarrow> string \<Rightarrow> string \<Rightarrow> arith_error + rat" where
  "hms_seconds h m s fractional =
     (case py_int h of
        Inl e \<Rightarrow> Inl e
      | Inr hours \<Rightarrow>
     (case py_int m of
        Inl e \<Rightarrow> Inl e
      | Inr minutes \<Rightarrow>
     (case py_int s of
        Inl e \<Rightarrow> Inl e
      | Inr seconds \<Rightarrow>
     (case (if fractional \<noteq> [] then fractional_value fractional else Inr 0) of
        Inl e \<Rightarrow> Inl e
      | Inr fv \<Rightarrow> int_add_float (hours * 3600 + minutes * 60 + seconds) fv))))"

definition decimal_seconds :: "string \<Rightarrow> string \<Rightarrow> arith_error + rat" where
  "decimal_seconds s fractional =
     (case py_int s of
        Inl e \<Rightarrow> Inl e
      | Inr seconds \<Rightarrow>
     (case fractional_value fractional of
        Inl e \<Rightarrow> Inl e
      | Inr fv \<Rightarrow> int_add_float seconds fv))"

definition integer_seconds :: "string \<Rightarrow> arith_error + rat" where
  "integer_seconds ds =
     (case py_int ds of
        Inl e \<Rightarrow> Inl e
      | Inr seconds \<Rightarrow>
          if 3600 < seconds then
            (case float_of_int seconds of
               Inl e \<Rightarrow> Inl e
             | Inr x \<Rightarrow> float_true_divide x 1000)
          else float_of_int seconds)"

definition latency_seconds :: "string \<Rightarrow> arith_error + rat option" where
  "latency_seconds latency_header =
     (case re_search match_hms latency_header of
        Some (hours, minutes, seconds, fractional) \<Rightarrow>
          (case hms_seconds hours minutes seconds fractional of
             Inl e \<Rightarrow> Inl e
           | Inr v \<Rightarrow> Inr (Some v))
      | None \<Rightarrow>
          (case re_search match_decimal latency_header of
             Some (seconds, fractional) \<Rightarrow>
               (case decimal_seconds seconds fractional of
                  Inl e \<Rightarrow> Inl e
                | Inr v \<Rightarrow> Inr (Some v))
           | None \<Rightarrow>
               (case re_search match_integer latency_header of
                  Some ds \<Rightarrow>
                    (case integer_seconds ds of
                       Inl e \<Rightarrow> Inl e
                     | Inr v \<Rightarrow> Inr (Some v))
                | None \<Rightarrow> Inr None)))"

text \<open>
  \<^verbatim>\<open>_parse_latency_header\<close>: no value for an empty header, for a header in which no
  pattern occurs, and whenever the \<^verbatim>\<open>try\<close> block raises, which the bare
  \<^verbatim>\<open>except\<close> swallows.
\<close>

definition parse_latency_header :: "string \<Rightarrow> rat option" where
  "parse_latency_header latency_header =
     (if latency_header = [] then None
      else case latency_seconds latency_header of
             Inl e \<Rightarrow> None
           | Inr r \<Rightarrow> r)"

subsection \<open>The analysis result\<close>

text \<open>
  The fields of \<^verbatim>\<open>EmailParseResult\<close> that the relay, delay, domain and header code
  reads or writes, with their defaults.  The authentication flags, the DNS record texts
  and \<^verbatim>\<open>ip_info\<close> are written by code that touches nothing else and are left out.
\<close>

record email_parse_result =
  headers :: "(string \<times> string) list"
  auth_results :: string
  sender_ip :: "string option"
  relays :: "relay list"
  total_delay :: rat
  delay_source :: string
  end_to_end_latency_header :: string
  from_domain :: string
  return_path_domain :: string

definition new_result :: email_parse_result where
  "new_result =
     \<lparr>headers = [], auth_results = [], sender_ip = None, relays = [], total_delay = 0,
      delay_source = ''Calculated'', end_to_end_latency_header = [],
      from_domain = [], return_path_domain = []\<rparr>"

subsection \<open>Per-hop and total delay\<close>

text \<open>
  The loop \<^verbatim>\<open>for i in range(1, len(relays))\<close>: \<open>prev\<close> is \<^verbatim>\<open>relays[i-1]\<close>, the head
  of the list is \<^verbatim>\<open>relays[i]\<close>, \<open>acc\<close> is \<^verbatim>\<open>calculated_delay\<close>.  The loop writes
  \<^verbatim>\<open>delay\<close> only, so the timestamps it reads are those of the input.
\<close>

fun delays_loop :: "relay \<Rightarrow> relay list \<Rightarrow> rat \<Rightarrow> py_error + (relay list \<times> rat)" where
  "delays_loop prev [] acc = Inr ([], acc)"
| "delays_loop prev (r # rs) acc =
     (case (time_dt prev, time_dt r) of
        (Some tp, Some tr) \<Rightarrow>
          (case dt_diff_seconds tr tp of
             Inl e \<Rightarrow> Inl e
           | Inr delta \<Rightarrow>
               (let d = max (of_int delta) 0
                in case delays_loop r rs (acc + d) of
                     Inl e \<Rightarrow> Inl e
                   | Inr (rs', acc') \<Rightarrow> Inr (r\<lparr>delay := d\<rparr> # rs', acc')))
      | _ \<Rightarrow>
          (case delays_loop r rs acc of
             Inl e \<Rightarrow> Inl e
           | Inr (rs', acc') \<Rightarrow> Inr (r # rs', acc')))"

definition relay_delays :: "relay list \<Rightarrow> py_error + (relay list \<times> rat)" where
  "relay_delays rs =
     (case rs of
        [] \<Rightarrow> Inr ([], 0)
      | r # rest \<Rightarrow>
          (case delays_loop r rest 0 of
             Inl e \<Rightarrow> Inl e
           | Inr (rest', acc') \<Rightarrow> Inr (r # rest', acc')))"

definition calculate_delays :: "message \<Rightarrow> email_parse_result \<Rightarrow> py_error + email_parse_result" where
  "calculate_delays msg result =
     (let latency_header = msg_get ''X-MS-Exchange-Transport-EndToEndLatency'' [] msg;
          result1 = (if latency_header \<noteq> []
                     then result\<lparr>end_to_end_latency_header := latency_header\<rparr> else result);
          parsed_delay = (if latency_header \<noteq> [] then parse_latency_header latency_header else None)
      in case parsed_delay of
           Some d \<Rightarrow>
             Inr (result1\<lparr>total_delay := d,
                          delay_source := ''X-MS-Exchange-Transport-EndToEndLatency''\<rparr>)
         | None \<Rightarrow>
             (case relay_delays (relays result1) of
                Inl e \<Rightarrow> Inl e
              | Inr (rs, calculated_delay) \<Rightarrow>
                  Inr (result1\<lparr>relays := rs, total_delay := calculated_delay,
                               delay_source := ''Calculated from Received headers''\<rparr>)))"

section \<open>Domains, sender address and the whole analysis\<close>

definition extract_domains :: "lib \<Rightarrow> message \<Rightarrow> string \<times> string" where
  "extract_domains L msg =
     (let from_header = msg_get ''From'' [] msg;
          from_dom =
            (if from_header \<noteq> [] then
               (let addr = snd (parseaddr L from_header)
                in if CHR ''@'' \<in> set addr then split_last (CHR ''@'') addr else [])
             else []);
          return_path = msg_get ''Return-Path'' [] msg;
          rp_domain =
            (if return_path \<noteq> [] then
               (let addr = snd (parseaddr L return_path)
                in if CHR ''@'' \<in> set addr then split_last (CHR ''@'') addr else [])
             else [])
      in (from_dom, rp_domain))"

text \<open>\<^verbatim>\<open>s.strip('[]()')\<close>\<close>

definition strip_brackets :: "string \<Rightarrow> string" where
  "strip_brackets s =
     (let b = (\<lambda>c. c \<in> set ''[]()'')
      in rev (dropWhile b (rev (dropWhile b s))))"

definition public_ip :: "lib \<Rightarrow> string \<Rightarrow> bool" where
  "public_ip L a = (is_valid_ip L a \<and> \<not> is_private_ip L a)"

text \<open>\<^verbatim>\<open>_extract_sender_ip\<close> reads the relays and assigns \<^verbatim>\<open>sender_ip\<close> only.\<close>

definition extract_sender_ip :: "lib \<Rightarrow> email_parse_result \<Rightarrow> email_parse_result" where
  "extract_sender_ip L result =
     (let from_relays =
            (case filter (\<lambda>r. ip r \<noteq> [] \<and> public_ip L (ip r)) (relays result) of
               [] \<Rightarrow> result
             | r # _ \<Rightarrow> result\<lparr>sender_ip := Some (ip r)\<rparr>)
      in case search_client_ip L (auth_results result) of
           Some g \<Rightarrow>
             (let candidate = strip_brackets g
              in if public_ip L candidate then result\<lparr>sender_ip := Some candidate\<rparr>
                 else from_relays)
         | None \<Rightarrow> from_relays)"

text \<open>
  \<^verbatim>\<open>EmailAnalyzer.analyze\<close> on the parsed message.  The progress callback only
  reports; \<^verbatim>\<open>_check_authentication\<close> is represented by the one field it writes that
  later steps read.
\<close>

definition analyze :: "lib \<Rightarrow> message \<Rightarrow> py_error + email_parse_result" where
  "analyze L msg =
     (let result = new_result\<lparr>headers := py_dict msg\<rparr>;
          result = result\<lparr>from_domain := fst (extract_domains L msg),
                          return_path_domain := snd (extract_domains L msg)\<rparr>;
          result = result\<lparr>auth_results := msg_get ''Authentication-Results'' [] msg\<rparr>
      in case process_relays L msg of
           Inl e \<Rightarrow> Inl e
         | Inr rs \<Rightarrow> calculate_delays msg (extract_sender_ip L (result\<lparr>relays := rs\<rparr>)))"

section \<open>Blacklist zones\<close>

text \<open>
  \<^verbatim>\<open>BlacklistChecker\<close> of \<^verbatim>\<open>ip_lookup.py\<close>.  The resolver is the environment: a query
  either returns an answer or raises one of the exceptions of \<^verbatim>\<open>Resolver.resolve\<close>, all
  of them subclasses of \<^verbatim>\<open>DNSException\<close> (\<open>NoNameservers\<close> is what a SERVFAIL or a
  malformed reply from every server ends in).
\<close>

datatype dns_outcome =
  Answer | NXDOMAIN | NoAnswer | Timeout | NoNameservers | YXDOMAIN | OtherDNSException

text \<open>\<^verbatim>\<open>s.split(sep)\<close> and \<^verbatim>\<open>sep.join(parts)\<close> for a one-character separator.\<close>

fun split_on :: "char \<Rightarrow> string \<Rightarrow> string list" where
  "split_on sep [] = [[]]"
| "split_on sep (c # s) =
     (if c = sep then [] # split_on sep s
      else (c # hd (split_on sep s)) # tl (split_on sep s))"

fun join :: "char \<Rightarrow> string list \<Rightarrow> string" where
  "join sep [] = []"
| "join sep [p] = p"
| "join sep (p # q # ps) = p @ sep # join sep (q # ps)"

definition BLACKLISTS :: "(string \<times> string) list" where
  "BLACKLISTS =
     [(''zen.spamhaus.org'', ''Spamhaus ZEN''),
      (''b.barracudacentral.org'', ''Barracuda''),
      (''bl.spamcop.net'', ''SpamCop''),
      (''dnsbl.sorbs.net'', ''SORBS''),
      (''cbl.abuseat.org'', ''CBL''),
      (''psbl.surriel.com'', ''PSBL''),
      (''all.s5h.net'', ''S5H''),
      (''ix.dnsbl.manitu.net'', ''Manitu''),
      (''dnsbl-1.uceprotect.net'', ''UCEPROTECT-1''),
      (''dul.dnsbl.sorbs.net'', ''SORBS DUL'')]"

definition check_single_blacklist ::
    "(string \<Rightarrow> dns_outcome) \<Rightarrow> string \<Rightarrow> string \<Rightarrow> bool option" where
  "check_single_blacklist resolve reversed_ip zone =
     (case resolve (reversed_ip @ ''.'' @ zone) of
        Answer \<Rightarrow> Some True
      | NXDOMAIN \<Rightarrow> Some False
      | _ \<Rightarrow> None)"

text \<open>\<^verbatim>\<open>check_ip\<close>; \<open>is_valid_public_ip\<close> stands for the test made with \<^verbatim>\<open>ipaddress\<close>.\<close>

definition check_ip ::
    "(string \<Rightarrow> bool) \<Rightarrow> (string \<Rightarrow> dns_outcome) \<Rightarrow> string \<Rightarrow> (string \<times> bool option) list" where
  "check_ip is_valid_public_ip resolve a =
     (if \<not> is_valid_public_ip a then []
      else
        (let reversed_ip = join (CHR ''.'') (rev (split_on (CHR ''.'') a))
         in foldl (\<lambda>results (bl_host, bl_name).
                     dict_set bl_name (check_single_blacklist resolve reversed_ip bl_host) results)
              [] BLACKLISTS))"

section \<open>Geolocation lookups and their cache\<close>

text \<open>
  \<^verbatim>\<open>IPLookupService\<close> of \<^verbatim>\<open>ip_lookup.py\<close>.  A result is a dictionary: its entries
  and, apart from them, the number under \<^verbatim>\<open>_cached_at\<close> when it has one.  A cache file
  is missing, or its reading raises (which the bare \<^verbatim>\<open>except\<close> swallows), or it holds a
  dictionary.  Times are seconds as \<^verbatim>\<open>time.time()\<close> counts them.
\<close>

record ip_info =
  entries :: "(string \<times> string) list"
  cached_at :: "rat option"

datatype cache_file = NoFile | Unreadable | Entry ip_info

datatype http_outcome =
  HttpOk ip_info | HttpNotOk | HttpTimeout | HttpRequestException string | HttpException string

text \<open>The environment of a lookup: the address tests, the reply of the remote service,
  the outcome of \<^verbatim>\<open>_get_fallback_ip_info\<close>, whether the cache file can be written, and the
  clock reading at the moment of the write.\<close>

record ip_env =
  valid_ip :: "string \<Rightarrow> bool"
  private_ip :: "string \<Rightarrow> bool"
  http_get :: "string \<Rightarrow> http_outcome"
  fallback_ip_info :: "string \<Rightarrow> ip_info"
  disk_writable :: bool
  write_time :: rat

text \<open>The state of a service object: the files of its cache directory by name, and the
  table of \<^verbatim>\<open>@lru_cache(maxsize=256)\<close> on \<^verbatim>\<open>get_ip_info\<close>, most recently used first.\<close>

record service =
  disk :: "string \<Rightarrow> cache_file"
  memo :: "(string \<times> ip_info) list"

definition cache_name :: "string \<Rightarrow> string" where
  "cache_name a = map (\<lambda>c. if c = CHR ''.'' then CHR ''_'' else c) a @ ''.json''"

definition get_cached_ip_info :: "rat \<Rightarrow> service \<Rightarrow> string \<Rightarrow> ip_info option" where
  "get_cached_ip_info now svc a =
     (case disk svc (cache_name a) of
        NoFile \<Rightarrow> None
      | Unreadable \<Rightarrow> None
      | Entry data \<Rightarrow>
          if now - (case cached_at data of None \<Rightarrow> 0 | Some t \<Rightarrow> t) < 7 * 24 * 3600
          then Some data else None)"

definition cache_ip_info :: "ip_env \<Rightarrow> service \<Rightarrow> string \<Rightarrow> ip_info \<Rightarrow> ip_info \<times> service" where
  "cache_ip_info E svc a data =
     (let data' = data\<lparr>cached_at := Some (write_time E)\<rparr>
      in (data', if disk_writable E
                 then svc\<lparr>disk := (disk svc)(cache_name a := Entry data')\<rparr> else svc))"

text \<open>The truth value of a dictionary: it is not empty.\<close>

definition dict_nonempty :: "ip_info \<Rightarrow> bool" where
  "dict_nonempty d = (entries d \<noteq> [] \<or> cached_at d \<noteq> None)"

text \<open>The request to the remote service and what the body of \<^verbatim>\<open>get_ip_info\<close> makes of
  its outcome.\<close>

definition fresh_lookup :: "ip_env \<Rightarrow> service \<Rightarrow> string \<Rightarrow> ip_info \<times> service" where
  "fresh_lookup E svc a =
     (case http_get E a of
        HttpOk data \<Rightarrow> cache_ip_info E svc a data
      | HttpNotOk \<Rightarrow> (fallback_ip_info E a, svc)
      | HttpTimeout \<Rightarrow>
          (\<lparr>entries = [(''error'', ''Request timed out''), (''ip'', a)], cached_at = None\<rparr>, svc)
      | HttpRequestException e \<Rightarrow>
          (\<lparr>entries = [(''error'', ''Request failed: '' @ e), (''ip'', a)], cached_at = None\<rparr>, svc)
      | HttpException e \<Rightarrow>
          (\<lparr>entries = [(''error'', ''Unexpected error: '' @ e), (''ip'', a)], cached_at = None\<rparr>, svc))"

text \<open>The body of \<^verbatim>\<open>get_ip_info\<close>: the result, the new state, and whether a request was
  sent to the remote service.\<close>

definition get_ip_info_body ::
    "ip_env \<Rightarrow> rat \<Rightarrow> service \<Rightarrow> string \<Rightarrow> ip_info \<times> service \<times> bool" where
  "get_ip_info_body E now svc a =
     (if \<not> valid_ip E a \<or> private_ip E a then
        (\<lparr>entries = [(''error'', ''Invalid or private IP address'')], cached_at = None\<rparr>, svc, False)
      else
        (case get_cached_ip_info now svc a of
           Some cached \<Rightarrow>
             if dict_nonempty cached then (cached, svc, False)
             else (fst (fresh_lookup E svc a), snd (fresh_lookup E svc a), True)
         | None \<Rightarrow> (fst (fresh_lookup E svc a), snd (fresh_lookup E svc a), True)))"

text \<open>\<^verbatim>\<open>get_ip_info\<close> as decorated: a result stored for the address is returned as it is;
  otherwise the body runs and its result is stored, the least recently used entry
  making room.\<close>

definition get_ip_info ::
    "ip_env \<Rightarrow> rat \<Rightarrow> service \<Rightarrow> string \<Rightarrow> ip_info \<times> service \<times> bool" where
  "get_ip_info E now svc a =
     (case map_of (memo svc) a of
        Some r \<Rightarrow> (r, svc\<lparr>memo := (a, r) # filter (\<lambda>(k, v). k \<noteq> a) (memo svc)\<rparr>, False)
      | None \<Rightarrow>
          (case get_ip_info_body E now svc a of
             (r, svc', requested) \<Rightarrow>
               (r, svc'\<lparr>memo := take 256 ((a, r) # memo svc')\<rparr>, requested)))"

section \<open>Notions of the specification\<close>

text \<open>
  What \<^verbatim>\<open>\s*(.+)$\<close> accepts at the start of a text: whitespace, then one non-empty line,
  then the end of the text or one final newline.
\<close>

definition one_line_rest :: "string \<Rightarrow> bool" where
  "one_line_rest t =
     (\<exists>ws g tl. t = ws @ g @ tl \<and> list_all is_space ws \<and> g \<noteq> [] \<and> newline \<notin> set g
        \<and> (tl = [] \<or> tl = [newline]))"

text \<open>The per-hop delay in the words of the specification: the difference of the two
  timestamps, not below 0, when both are present (and can be subtracted); 0 otherwise.\<close>

definition hop_delay :: "relay \<Rightarrow> relay \<Rightarrow> rat" where
  "hop_delay prev r =
     (case (time_dt prev, time_dt r) of
        (Some tp, Some tr) \<Rightarrow>
          (case dt_diff_seconds tr tp of Inr delta \<Rightarrow> max (of_int delta) 0 | Inl e \<Rightarrow> 0)
      | _ \<Rightarrow> 0)"

text \<open>Timestamps that Python can compare and subtract without raising: all of them aware,
  or all of them naive.\<close>

definition uniform_timestamps :: "datetime option list \<Rightarrow> bool" where
  "uniform_timestamps ts =
     ((\<forall>d. Some d \<in> set ts \<longrightarrow> utcoffset d \<noteq> None) \<or> (\<forall>d. Some d \<in> set ts \<longrightarrow> utcoffset d = None))"

section \<open>Sample inputs\<close>

text \<open>
  The values of the library functions and field patterns on the texts of the examples
  below.  The example headers consist of an \<^verbatim>\<open>id\<close> clause and a date: they hold none of
  the words \<^verbatim>\<open>from\<close>, \<^verbatim>\<open>by\<close>, \<^verbatim>\<open>with\<close> and no address, so the three field patterns
  and the address pattern find nothing in them.  Wall-clock readings are counted from
  midnight of 1 January 2024.  \<^verbatim>\<open>parseaddr\<close> returns a bare address unchanged, with an
  empty display name.
\<close>

definition sample_parsedate :: "string \<Rightarrow> datetime option" where
  "sample_parsedate s =
     (if s = ''Mon, 01 Jan 2024 10:00:00 +0000'' then Some \<lparr>wall = 36000, utcoffset = Some 0\<rparr>
      else if s = ''Mon, 01 Jan 2024 10:00:10 +0000'' then Some \<lparr>wall = 36010, utcoffset = Some 0\<rparr>
      else if s = ''Mon, 01 Jan 2024 10:00:10 -0000'' then Some \<lparr>wall = 36010, utcoffset = None\<rparr>
      else None)"

definition sample_strftime :: "datetime \<Rightarrow> string option" where
  "sample_strftime d =
     (if wall d = 36000 then Some ''01/01/2024 10:00:00 AM''
      else if wall d = 36010 then Some ''01/01/2024 10:00:10 AM''
      else None)"

definition sample_lib :: lib where
  "sample_lib =
     \<lparr>parsedate_to_datetime = sample_parsedate, strftime = sample_strftime,
      parseaddr = (\<lambda>s. ([], s)),
      search_from = (\<lambda>s. None), search_by = (\<lambda>s. None), search_with = (\<lambda>s. None),
      extract_ip_from_text = (\<lambda>s. []), search_client_ip = (\<lambda>s. None),
      is_valid_ip = (\<lambda>s. False), is_private_ip = (\<lambda>s. True)\<rparr>"

definition sample_forward :: message where
  "sample_forward =
     [(''Received'', ''id B2; Mon, 01 Jan 2024 10:00:10 +0000''),
      (''Received'', ''id A1; Mon, 01 Jan 2024 10:00:00 +0000'')]"

definition sample_backward :: message where
  "sample_backward =
     [(''Received'', ''id A1; Mon, 01 Jan 2024 10:00:00 +0000''),
      (''Received'', ''id B2; Mon, 01 Jan 2024 10:00:10 +0000'')]"

definition sample_mixed :: message where
  "sample_mixed =
     [(''Received'', ''id B2; Mon, 01 Jan 2024 10:00:10 -0000''),
      (''Received'', ''id A1; Mon, 01 Jan 2024 10:00:00 +0000'')]"

definition sample_latency :: message where
  "sample_latency =
     sample_forward @ [(''X-MS-Exchange-Transport-EndToEndLatency'', ''00:00:02.500'')]"

definition sample_from :: message where
  "sample_from = [(''From'', ''User@EXAMPLE.COM'')]"

text \<open>A resolver under which the address 1.2.3.4 is listed by the first zone, unknown to
  the second, and the third zone does not answer in time.\<close>

definition sample_resolve :: "string \<Rightarrow> dns_outcome" where
  "sample_resolve q =
     (if q = ''4.3.2.1.zen.spamhaus.org'' then Answer
      else if q = ''4.3.2.1.bl.spamcop.net'' then Timeout
      else NXDOMAIN)"

text \<open>A service object whose cache directory holds one entry, written at time 0, and a
  remote service that does not answer in time.\<close>

definition sample_entry :: ip_info where
  "sample_entry = \<lparr>entries = [(''ip'', ''8.8.8.8''), (''country'', ''US'')], cached_at = Some 0\<rparr>"

definition sample_service :: service where
  "sample_service =
     \<lparr>disk = (\<lambda>name. if name = ''8_8_8_8.json'' then Entry sample_entry else NoFile), memo = []\<rparr>"

definition sample_env :: ip_env where
  "sample_env =
     \<lparr>valid_ip = (\<lambda>a. a = ''8.8.8.8''), private_ip = (\<lambda>a. False),
      http_get = (\<lambda>a. HttpTimeout), fallback_ip_info = (\<lambda>a. \<lparr>entries = [(''ip'', a)], cached_at = None\<rparr>),
      disk_writable = True, write_time = 0\<rparr>"

definition sample_two_semicolons :: string where
  "sample_two_semicolons = ''id A1; x; Mon, 01 Jan 2024 10:00:00 +0000''"

section \<open>Unfolding the model on concrete inputs\<close>

lemmas text_defs = newline_def is_space_def is_digit_def strip_def lower_def lower_char_def
  split_last_def

lemmas relay_defs = msg_get_def msg_get_all_def numbered_relays_def parse_received_header_def
  set_time_def timestamp_text_def new_relay_def match_time_def match_dot_plus_eol_def process_relays_def
  renumber_def dt_less_def

lemmas delay_defs = relay_delays_def calculate_delays_def dt_diff_seconds_def

lemmas analyze_defs = analyze_def new_result_def py_dict_def extract_domains_def
  extract_sender_ip_def strip_brackets_def public_ip_def

lemmas sample_defs = sample_lib_def sample_parsedate_def sample_strftime_def sample_forward_def
  sample_backward_def sample_mixed_def sample_latency_def

section \<open>Hop numbers and the blacklist flag through the analysis\<close>

lemma set_time_hop: "hop (set_time L h r) = hop r"
  by (simp add: set_time_def Let_def split: option.splits)

lemma set_time_blacklist: "blacklist (set_time L h r) = blacklist r"
  by (simp add: set_time_def Let_def split: option.splits)

lemma parse_received_header_hop: "hop (parse_received_header L h n) = n"
  by (simp add: parse_received_header_def Let_def set_time_hop new_relay_def split: option.splits)

lemma parse_received_header_blacklist: "blacklist (parse_received_header L h n) = Some True"
  by (simp add: parse_received_header_def Let_def set_time_blacklist new_relay_def split: option.splits)

lemma length_numbered_relays: "length (numbered_relays L hs) = length hs"
  by (simp add: numbered_relays_def del: upt_Suc)

lemma length_upt_from_1: "length [1 ..< Suc n] = n"
  by (simp only: length_upt diff_Suc_1)

lemma hop_parse_zip:
  "length ns = length hs \<Longrightarrow>
   map hop (map (\<lambda>(idx, rec). parse_received_header L rec idx) (zip ns hs)) = ns"
  by (induction ns hs rule: list_induct2) (simp_all add: parse_received_header_hop)

lemma hop_numbered_relays: "map hop (numbered_relays L hs) = [1 ..< Suc (length hs)]"
  unfolding numbered_relays_def
  by (rule hop_parse_zip) (simp only: length_upt_from_1 length_rev)

lemma length_renumber: "length (renumber rs) = length rs"
  by (simp add: renumber_def del: upt_Suc)

lemma hop_renumber_zip:
  "length ns = length rs \<Longrightarrow> map hop (map (\<lambda>(idx, r). r\<lparr>hop := idx\<rparr>) (zip ns rs)) = ns"
  by (induction ns rs rule: list_induct2) simp_all

lemma hop_renumber: "map hop (renumber rs) = [1 ..< Suc (length rs)]"
  unfolding renumber_def
  by (rule hop_renumber_zip) (simp only: length_upt_from_1)

lemma blacklist_renumber_zip:
  "length ns = length rs \<Longrightarrow>
   map blacklist (map (\<lambda>(idx, r). r\<lparr>hop := idx\<rparr>) (zip ns rs)) = map blacklist rs"
  by (induction ns rs rule: list_induct2) simp_all

lemma blacklist_renumber: "map blacklist (renumber rs) = map blacklist rs"
  unfolding renumber_def
  by (rule blacklist_renumber_zip) (simp only: length_upt_from_1)

lemma process_relays_cases:
  assumes "process_relays L msg = Inr rs"
  shows "rs = numbered_relays L (msg_get_all ''Received'' msg)
       \<or> rs = renumber (rev (numbered_relays L (msg_get_all ''Received'' msg)))"
  using assms
  by (auto simp: process_relays_def Let_def split: list.splits option.splits sum.splits bool.splits)

lemma process_relays_hops:
  assumes "process_relays L msg = Inr rs"
  shows "length rs = length (msg_get_all ''Received'' msg)
       \<and> map hop rs = [1 ..< Suc (length (msg_get_all ''Received'' msg))]"
  using process_relays_cases [OF assms]
  by (auto simp: length_numbered_relays hop_numbered_relays hop_renumber length_renumber simp del: upt_Suc)

lemma delays_loop_hop:
  "delays_loop p rs a = Inr (rs', t) \<Longrightarrow> map hop rs' = map hop rs"
  by (induction p rs a arbitrary: rs' t rule: delays_loop.induct)
     (auto simp: Let_def split: option.splits sum.splits prod.splits)

lemma delays_loop_blacklist:
  "delays_loop p rs a = Inr (rs', t) \<Longrightarrow> map blacklist rs' = map blacklist rs"
  by (induction p rs a arbitrary: rs' t rule: delays_loop.induct)
     (auto simp: Let_def split: option.splits sum.splits prod.splits)

lemma relay_delays_hop:
  "relay_delays rs = Inr (rs', t) \<Longrightarrow> map hop rs' = map hop rs"
  by (auto simp: relay_delays_def split: list.splits sum.splits prod.splits dest: delays_loop_hop)

lemma relay_delays_blacklist:
  "relay_delays rs = Inr (rs', t) \<Longrightarrow> map blacklist rs' = map blacklist rs"
  by (auto simp: relay_delays_def split: list.splits sum.splits prod.splits dest: delays_loop_blacklist)

lemma calculate_delays_hop:
  "calculate_delays msg res = Inr res' \<Longrightarrow> map hop (relays res') = map hop (relays res)"
  by (auto simp: calculate_delays_def Let_def split: option.splits sum.splits prod.splits if_splits dest: relay_delays_hop)

lemma calculate_delays_blacklist:
  "calculate_delays msg res = Inr res' \<Longrightarrow> map blacklist (relays res') = map blacklist (relays res)"
  by (auto simp: calculate_delays_def Let_def split: option.splits sum.splits prod.splits if_splits dest: relay_delays_blacklist)

lemma relays_extract_sender_ip: "relays (extract_sender_ip L res) = relays res"
  by (simp add: extract_sender_ip_def Let_def split: option.splits list.splits)

lemma analyze_relays:
  assumes "analyze L msg = Inr result"
  obtains rs where "process_relays L msg = Inr rs"
    and "map hop (relays result) = map hop rs"
    and "map blacklist (relays result) = map blacklist rs"
proof -
  from assms obtain rs res0 where p: "process_relays L msg = Inr rs"
    and c: "calculate_delays msg (extract_sender_ip L (res0\<lparr>relays := rs\<rparr>)) = Inr result"
    by (auto simp: analyze_def Let_def split: sum.splits)
  have "map hop (relays result) = map hop rs"
    using calculate_delays_hop [OF c] by (simp add: relays_extract_sender_ip)
  moreover have "map blacklist (relays result) = map blacklist rs"
    using calculate_delays_blacklist [OF c] by (simp add: relays_extract_sender_ip)
  ultimately show ?thesis using p that by blast
qed

section \<open>The reorder check\<close>

text \<open>
  C1, at a failing input.  Two Received headers, the upper one dated with the zone
  \<^verbatim>\<open>-0000\<close> and the lower one with \<^verbatim>\<open>+0000\<close>: both hops have a parsed timestamp, one
  naive and one aware.  The comparison of the reorder check raises \<^verbatim>\<open>TypeError\<close>, so
  the hop order is neither reversed nor left unchanged: the analysis ends with the
  exception.
\<close>

theorem reorder_check_raises_on_mixed_timestamps:
  "map (map_option wall \<circ> time_dt)
       (numbered_relays sample_lib (msg_get_all ''Received'' sample_mixed))
     = [Some 36000, Some 36010]
   \<and> map (map_option utcoffset \<circ> time_dt)
       (numbered_relays sample_lib (msg_get_all ''Received'' sample_mixed))
     = [Some (Some 0), Some None]
   \<and> process_relays sample_lib sample_mixed = Inl TypeError
   \<and> analyze sample_lib sample_mixed = Inl TypeError"
proof (intro conjI)
  show "map (map_option wall \<circ> time_dt)
       (numbered_relays sample_lib (msg_get_all ''Received'' sample_mixed))
     = [Some 36000, Some 36010]"
    by (simp add: text_defs relay_defs sample_defs)
  show "map (map_option utcoffset \<circ> time_dt)
       (numbered_relays sample_lib (msg_get_all ''Received'' sample_mixed))
     = [Some (Some 0), Some None]"
    by (simp add: text_defs relay_defs sample_defs)
  show "process_relays sample_lib sample_mixed = Inl TypeError"
    by code_simp
  show "analyze sample_lib sample_mixed = Inl TypeError"
    by code_simp
qed

text \<open>
  Where the comparison does not raise, the check does what C1 says: the sequence is
  reversed and renumbered when hop 2 is strictly earlier than hop 1, and is left as it
  was numbered in every other case.  The comparison raises exactly for one naive and one
  aware timestamp.
\<close>

lemma process_relays_comparable:
  assumes "numbered_relays L (msg_get_all ''Received'' msg) = r0 # r1 # rest"
    and "time_dt r0 = Some t0" and "time_dt r1 = Some t1" and "dt_less t1 t0 = Inr earlier"
  shows "process_relays L msg
       = Inr (if earlier then renumber (rev (r0 # r1 # rest)) else r0 # r1 # rest)"
  using assms by (simp add: process_relays_def)

lemma process_relays_without_two_timestamps:
  assumes "numbered_relays L (msg_get_all ''Received'' msg) = rs"
    and "length rs < 2 \<or> time_dt (rs ! 0) = None \<or> time_dt (rs ! 1) = None"
  shows "process_relays L msg = Inr rs"
  using assms
  by (auto simp: process_relays_def split: list.splits option.splits)

lemma dt_less_aware:
  "utcoffset a = Some x \<Longrightarrow> utcoffset b = Some y \<Longrightarrow> dt_less a b = Inr (wall a - x < wall b - y)"
  by (simp add: dt_less_def)

lemma dt_less_naive:
  "utcoffset a = None \<Longrightarrow> utcoffset b = None \<Longrightarrow> dt_less a b = Inr (wall a < wall b)"
  by (simp add: dt_less_def)

lemma dt_less_raises_iff:
  "dt_less a b = Inl TypeError \<longleftrightarrow> (utcoffset a = None) \<noteq> (utcoffset b = None)"
  by (auto simp: dt_less_def split: option.splits)

text \<open>
  The analysis produces a result whenever the parsed timestamps of the hops are all aware
  or all naive.
\<close>

lemma uniform_timestamps_subset:
  "uniform_timestamps ts \<Longrightarrow> set ts' \<subseteq> set ts \<Longrightarrow> uniform_timestamps ts'"
  unfolding uniform_timestamps_def by blast

lemma uniform_dt_less:
  assumes "uniform_timestamps ts" and "Some a \<in> set ts" and "Some b \<in> set ts"
  shows "\<exists>x. dt_less a b = Inr x" and "\<exists>y. dt_diff_seconds a b = Inr y"
proof -
  from assms have "(utcoffset a \<noteq> None \<and> utcoffset b \<noteq> None) \<or> (utcoffset a = None \<and> utcoffset b = None)"
    unfolding uniform_timestamps_def by blast
  then show "\<exists>x. dt_less a b = Inr x" and "\<exists>y. dt_diff_seconds a b = Inr y"
    by (auto simp: dt_less_def dt_diff_seconds_def)
qed

lemma time_dt_renumber_zip:
  "length ns = length rs \<Longrightarrow>
   map time_dt (map (\<lambda>(idx, r). r\<lparr>hop := idx\<rparr>) (zip ns rs)) = map time_dt rs"
  by (induction ns rs rule: list_induct2) simp_all

lemma time_dt_renumber: "map time_dt (renumber rs) = map time_dt rs"
  unfolding renumber_def
  by (rule time_dt_renumber_zip) (simp only: length_upt_from_1)

lemma process_relays_returns:
  assumes "uniform_timestamps (map time_dt (numbered_relays L (msg_get_all ''Received'' msg)))"
  shows "\<exists>rs. process_relays L msg = Inr rs \<and> uniform_timestamps (map time_dt rs)"
proof -
  let ?rs0 = "numbered_relays L (msg_get_all ''Received'' msg)"
  have rev: "uniform_timestamps (map time_dt (renumber (rev ?rs0)))"
    using assms by (simp add: time_dt_renumber uniform_timestamps_def)
  show ?thesis
  proof (cases "\<exists>r0 r1 rest t0 t1. ?rs0 = r0 # r1 # rest \<and> time_dt r0 = Some t0 \<and> time_dt r1 = Some t1")
    case True
    then obtain r0 r1 rest t0 t1 where rs0: "?rs0 = r0 # r1 # rest"
      and t0: "time_dt r0 = Some t0" and t1: "time_dt r1 = Some t1"
      by blast
    have "Some t0 \<in> set (map time_dt ?rs0)" and "Some t1 \<in> set (map time_dt ?rs0)"
      unfolding rs0 using t0 t1 by simp_all
    from uniform_dt_less(1) [OF assms this(2) this(1)] obtain x where "dt_less t1 t0 = Inr x"
      by blast
    then have "process_relays L msg = Inr (if x then renumber (rev ?rs0) else ?rs0)"
      using rs0 t0 t1 by (simp add: process_relays_def)
    with assms rev show ?thesis by auto
  next
    case False
    then have "process_relays L msg = Inr ?rs0"
      by (intro process_relays_without_two_timestamps [OF refl])
         (cases ?rs0; cases "tl ?rs0"; force)
    with assms show ?thesis by auto
  qed
qed

lemma delays_loop_returns:
  "uniform_timestamps (map time_dt (prev # rs)) \<Longrightarrow> \<exists>x. delays_loop prev rs acc = Inr x"
proof (induction rs arbitrary: prev acc)
  case Nil
  show ?case by simp
next
  case (Cons r rs)
  have u: "uniform_timestamps (map time_dt (r # rs))"
    by (rule uniform_timestamps_subset [OF Cons.prems]) auto
  show ?case
  proof (cases "\<exists>tp tr. time_dt prev = Some tp \<and> time_dt r = Some tr")
    case False
    from Cons.IH [OF u, of acc] obtain x where "delays_loop r rs acc = Inr x"
      by blast
    with False show ?thesis
      by (cases x) (auto split: option.splits)
  next
    case True
    then obtain tp tr where tp: "time_dt prev = Some tp" and tr: "time_dt r = Some tr"
      by blast
    have "Some tr \<in> set (map time_dt (prev # r # rs))" and "Some tp \<in> set (map time_dt (prev # r # rs))"
      using tp tr by simp_all
    from uniform_dt_less(2) [OF Cons.prems this] obtain delta where d: "dt_diff_seconds tr tp = Inr delta"
      by blast
    from Cons.IH [OF u, of "acc + max (of_int delta) 0"] obtain x
      where "delays_loop r rs (acc + max (of_int delta) 0) = Inr x"
      by blast
    then show ?thesis
      by (cases x) (simp add: tp tr d)
  qed
qed

lemma calculate_delays_returns:
  assumes "uniform_timestamps (map time_dt (relays res))"
  shows "\<exists>res'. calculate_delays msg res = Inr res'"
proof (cases "relays res")
  case Nil
  then show ?thesis
    by (simp add: calculate_delays_def relay_delays_def Let_def split: option.splits)
next
  case (Cons r rest)
  with assms obtain x where "delays_loop r rest 0 = Inr x"
    using delays_loop_returns [of r rest 0] by auto
  then show ?thesis
    by (cases x) (simp add: calculate_delays_def relay_delays_def Let_def Cons split: option.splits)
qed

lemma analyze_returns:
  assumes "uniform_timestamps (map time_dt (numbered_relays L (msg_get_all ''Received'' msg)))"
  shows "\<exists>result. analyze L msg = Inr result"
proof -
  from process_relays_returns [OF assms] obtain rs where p: "process_relays L msg = Inr rs"
    and u: "uniform_timestamps (map time_dt rs)"
    by blast
  show ?thesis
    using p calculate_delays_returns [of "extract_sender_ip L (res0\<lparr>relays := rs\<rparr>)" msg for res0] u
    by (simp add: analyze_def Let_def relays_extract_sender_ip)
qed

section \<open>Hop numbering\<close>

text \<open>
  C2.  Whenever the analysis of a message with N Received headers produces a result, its
  relay sequence has exactly N hops and their hop numbers, in list order, are 1, 2, ..., N;
  this covers the sequences that the reorder check reversed and those it left alone.
  A result is produced whenever the parsed timestamps of the hops are all aware or all
  naive (the analysis produces none when a timestamp comparison raises, see C1).
\<close>

theorem relay_hops_contiguous:
  "(\<forall>result. analyze L msg = Inr result \<longrightarrow>
      length (relays result) = length (msg_get_all ''Received'' msg)
      \<and> map hop (relays result) = [1 ..< Suc (length (msg_get_all ''Received'' msg))])
   \<and> (\<forall>rs. process_relays L msg = Inr rs \<longrightarrow>
      length rs = length (msg_get_all ''Received'' msg)
      \<and> map hop rs = [1 ..< Suc (length (msg_get_all ''Received'' msg))])
   \<and> (uniform_timestamps (map time_dt (numbered_relays L (msg_get_all ''Received'' msg))) \<longrightarrow>
      (\<exists>result. analyze L msg = Inr result))"
proof (intro conjI allI impI)
  fix result
  assume a: "analyze L msg = Inr result"
  then obtain rs where p: "process_relays L msg = Inr rs"
    and h: "map hop (relays result) = map hop rs"
    by (rule analyze_relays)
  have l: "length (relays result) = length rs"
    using h by (rule map_eq_imp_length_eq)
  from l process_relays_hops [OF p]
  show "length (relays result) = length (msg_get_all ''Received'' msg)"
    by simp
  from h process_relays_hops [OF p]
  show "map hop (relays result) = [1 ..< Suc (length (msg_get_all ''Received'' msg))]"
    by (simp del: upt_Suc)
next
  fix rs
  assume p: "process_relays L msg = Inr rs"
  from process_relays_hops [OF p]
  show "length rs = length (msg_get_all ''Received'' msg)"
    and "map hop rs = [1 ..< Suc (length (msg_get_all ''Received'' msg))]"
    by simp_all
next
  assume "uniform_timestamps (map time_dt (numbered_relays L (msg_get_all ''Received'' msg)))"
  then show "\<exists>result. analyze L msg = Inr result"
    by (rule analyze_returns)
qed

theorem relay_hops_contiguous_witness:
  "\<exists>result. analyze sample_lib sample_backward = Inr result
     \<and> length (relays result) = 2 \<and> map hop (relays result) = [1, 2]"
proof -
  note th = relay_hops_contiguous [of sample_lib sample_backward]
  have "map (map_option utcoffset \<circ> time_dt)
          (numbered_relays sample_lib (msg_get_all ''Received'' sample_backward))
        = [Some (Some 0), Some (Some 0)]"
    by (simp add: text_defs relay_defs sample_defs)
  then have "\<forall>d. Some d \<in> set (map time_dt
          (numbered_relays sample_lib (msg_get_all ''Received'' sample_backward)))
        \<longrightarrow> utcoffset d \<noteq> None"
    by (auto simp: map_eq_Cons_conv)
  then have "uniform_timestamps (map time_dt
          (numbered_relays sample_lib (msg_get_all ''Received'' sample_backward)))"
    unfolding uniform_timestamps_def by (rule disjI1)
  with th obtain result where r: "analyze sample_lib sample_backward = Inr result"
    by blast
  have n: "length (msg_get_all ''Received'' sample_backward) = 2"
    by code_simp
  have u: "[1 ..< Suc 2] = [1, 2::nat]"
    by code_simp
  from th r have "length (relays result) = length (msg_get_all ''Received'' sample_backward)
      \<and> map hop (relays result) = [1 ..< Suc (length (msg_get_all ''Received'' sample_backward))]"
    by blast
  then have "length (relays result) = 2 \<and> map hop (relays result) = [1, 2]"
    by (simp only: n u)
  with r have "analyze sample_lib sample_backward = Inr result
      \<and> length (relays result) = 2 \<and> map hop (relays result) = [1, 2]"
    by (intro conjI) simp_all
  then show ?thesis by (rule exI)
qed

section \<open>The blacklist flag of a hop\<close>

lemma blacklist_numbered_relays:
  "r \<in> set (numbered_relays L hs) \<Longrightarrow> blacklist r = Some True"
  by (auto simp: numbered_relays_def parse_received_header_blacklist simp del: upt_Suc)

lemma blacklist_set_renumber:
  "r \<in> set (renumber rs) \<Longrightarrow> \<exists>r' \<in> set rs. blacklist r = blacklist r'"
proof -
  assume "r \<in> set (renumber rs)"
  then have "blacklist r \<in> set (map blacklist (renumber rs))"
    by simp
  then have "blacklist r \<in> set (map blacklist rs)"
    by (simp only: blacklist_renumber)
  then show ?thesis by auto
qed

lemma process_relays_blacklist:
  assumes "process_relays L msg = Inr rs" and "r \<in> set rs"
  shows "blacklist r = Some True"
proof -
  let ?rs0 = "numbered_relays L (msg_get_all ''Received'' msg)"
  from process_relays_cases [OF assms(1)]
  show ?thesis
  proof
    assume "rs = ?rs0"
    with assms(2) show ?thesis by (simp add: blacklist_numbered_relays)
  next
    assume "rs = renumber (rev ?rs0)"
    with assms(2) obtain r' where "r' \<in> set (rev ?rs0)" and "blacklist r = blacklist r'"
      using blacklist_set_renumber by blast
    then show ?thesis by (simp add: blacklist_numbered_relays)
  qed
qed

text \<open>
  C10.  Every hop built from a Received header has its blacklist flag set to \<^verbatim>\<open>True\<close>,
  whatever the header and the hop number.  The reorder check keeps the flag of every hop,
  the sender-address step leaves the relay list as it is, the delay step keeps the flags;
  so every hop of every analysis result carries the flag \<^verbatim>\<open>True\<close>, which says nothing
  about the input.
\<close>

theorem blacklist_flag_constant:
  "blacklist (parse_received_header L header n) = Some True
   \<and> (\<forall>rs. process_relays L msg = Inr rs \<longrightarrow> (\<forall>r \<in> set rs. blacklist r = Some True))
   \<and> relays (extract_sender_ip L res) = relays res
   \<and> (\<forall>res'. calculate_delays msg res = Inr res' \<longrightarrow>
         map blacklist (relays res') = map blacklist (relays res))
   \<and> (\<forall>result. analyze L msg = Inr result \<longrightarrow>
         (\<forall>r \<in> set (relays result). blacklist r = Some True))"
proof (intro conjI allI impI ballI)
  show "blacklist (parse_received_header L header n) = Some True"
    by (rule parse_received_header_blacklist)
  show "blacklist r = Some True" if "process_relays L msg = Inr rs" and "r \<in> set rs" for rs r
    using that by (rule process_relays_blacklist)
  show "relays (extract_sender_ip L res) = relays res"
    by (rule relays_extract_sender_ip)
  show "map blacklist (relays res') = map blacklist (relays res)"
    if "calculate_delays msg res = Inr res'" for res'
    using that by (rule calculate_delays_blacklist)
  show "blacklist r = Some True"
    if a: "analyze L msg = Inr result" and r: "r \<in> set (relays result)" for result r
  proof -
    from a obtain rs where p: "process_relays L msg = Inr rs"
      and b: "map blacklist (relays result) = map blacklist rs"
      by (rule analyze_relays)
    from r have "blacklist r \<in> set (map blacklist (relays result))"
      by simp
    then have "blacklist r \<in> set (map blacklist rs)"
      by (simp only: b)
    then obtain r' where "r' \<in> set rs" and "blacklist r = blacklist r'"
      by auto
    then show ?thesis using process_relays_blacklist [OF p] by simp
  qed
qed

lemma length_two: "length xs = 2 \<Longrightarrow> \<exists>x y. xs = [x, y]"
  by (cases xs; cases "tl xs") auto

theorem blacklist_flag_constant_witness:
  "\<exists>result. analyze sample_lib sample_forward = Inr result
     \<and> map blacklist (relays result) = [Some True, Some True]"
proof -
  have "\<not> isl (analyze sample_lib sample_forward)"
    by code_simp
  then obtain result where r: "analyze sample_lib sample_forward = Inr result"
    by (cases "analyze sample_lib sample_forward") simp_all
  have "length (relays (projr (analyze sample_lib sample_forward))) = 2"
    by code_simp
  then have "length (relays result) = 2"
    by (simp only: r sum.sel)
  then obtain x y where xy: "relays result = [x, y]"
    using length_two by blast
  have "\<forall>r \<in> set (relays result). blacklist r = Some True"
    using blacklist_flag_constant [of sample_lib "[]" 0 sample_forward new_result] r
    by blast
  then have "map blacklist (relays result) = [Some True, Some True]"
    by (simp add: xy)
  with r show ?thesis by (intro exI conjI)
qed

section \<open>Per-hop delays\<close>

lemma latency_sample_value: "parse_latency_header ''00:00:02.500'' = Some (5 / 2)"
  by code_simp

text \<open>
  C3, at a failing input.  Two Received headers whose timestamps are ten seconds apart,
  and a latency header that parses to 2.5 seconds: the analysis returns with the total
  taken from the latency header before the per-hop loop runs, so hop 2 keeps the delay
  0 although both hops carry parsed timestamps.  Without the latency header the same
  two hops get the delays 0 and 10.
\<close>

theorem latency_header_skips_hop_delays:
  "map (map_option wall \<circ> time_dt)
       (numbered_relays sample_lib (msg_get_all ''Received'' sample_latency))
     = [Some 36000, Some 36010]
   \<and> map (map_option utcoffset \<circ> time_dt)
       (numbered_relays sample_lib (msg_get_all ''Received'' sample_latency))
     = [Some (Some 0), Some (Some 0)]
   \<and> \<not> isl (analyze sample_lib sample_latency)
   \<and> map (map delay \<circ> relays) [projr (analyze sample_lib sample_latency)] = [[0, 0]]
   \<and> map total_delay [projr (analyze sample_lib sample_latency)] = [5 / 2]
   \<and> map (map delay \<circ> relays) [projr (analyze sample_lib sample_forward)] = [[0, 10]]"
proof (intro conjI)
  show "map (map_option wall \<circ> time_dt)
       (numbered_relays sample_lib (msg_get_all ''Received'' sample_latency))
     = [Some 36000, Some 36010]"
    by (simp add: text_defs relay_defs sample_defs)
  show "map (map_option utcoffset \<circ> time_dt)
       (numbered_relays sample_lib (msg_get_all ''Received'' sample_latency))
     = [Some (Some 0), Some (Some 0)]"
    by (simp add: text_defs relay_defs sample_defs)
  show "\<not> isl (analyze sample_lib sample_latency)"
    by code_simp
  show "map (map delay \<circ> relays) [projr (analyze sample_lib sample_latency)] = [[0, 0]]"
    by (simp add: text_defs relay_defs delay_defs analyze_defs sample_defs latency_sample_value)
  show "map total_delay [projr (analyze sample_lib sample_latency)] = [5 / 2]"
    by (simp add: text_defs relay_defs delay_defs analyze_defs sample_defs latency_sample_value)
  show "map (map delay \<circ> relays) [projr (analyze sample_lib sample_forward)] = [[0, 10]]"
    by (simp add: text_defs relay_defs delay_defs analyze_defs sample_defs)
qed

text \<open>
  Where the latency header is absent or does not parse and no subtraction raises, the
  loop does what C3 says: every hop after the first gets the delay of the specification,
  the first keeps 0, the total is their sum and the source tag names the Received
  headers.
\<close>

lemma delays_loop_result:
  assumes "delays_loop prev rs acc = Inr (rs', acc')" and "\<forall>r \<in> set rs. delay r = 0"
  shows "map delay rs' = map (\<lambda>(p, r). hop_delay p r) (zip (prev # rs) rs)
       \<and> acc' = acc + sum_list (map delay rs')"
  using assms
proof (induction rs arbitrary: prev acc rs' acc')
  case Nil
  then show ?case by simp
next
  case (Cons r rs)
  from Cons.prems(2) have zero: "delay r = 0" and rest: "\<forall>r \<in> set rs. delay r = 0"
    by simp_all
  show ?case
  proof (cases "\<exists>tp tr. time_dt prev = Some tp \<and> time_dt r = Some tr")
    case False
    with Cons.prems(1) obtain rs0 where l: "delays_loop r rs acc = Inr (rs0, acc')"
      and rs': "rs' = r # rs0"
      by (auto split: sum.splits option.splits)
    from False have h: "hop_delay prev r = 0"
      by (auto simp: hop_delay_def split: option.splits)
    from Cons.IH [OF l rest] show ?thesis
      by (simp add: rs' h zero)
  next
    case True
    then obtain tp tr where tp: "time_dt prev = Some tp" and tr: "time_dt r = Some tr"
      by blast
    with Cons.prems(1) obtain delta rs0 where d: "dt_diff_seconds tr tp = Inr delta"
      and l: "delays_loop r rs (acc + max (of_int delta) 0) = Inr (rs0, acc')"
      and rs': "rs' = r\<lparr>delay := max (of_int delta) 0\<rparr> # rs0"
      by (auto simp: Let_def split: sum.splits)
    have h: "hop_delay prev r = max (of_int delta) 0"
      by (simp add: hop_delay_def tp tr d)
    from Cons.IH [OF l rest] show ?thesis
      by (simp add: rs' h)
  qed
qed

lemma calculate_delays_from_timestamps:
  assumes "msg_get ''X-MS-Exchange-Transport-EndToEndLatency'' [] msg = []
         \<or> parse_latency_header (msg_get ''X-MS-Exchange-Transport-EndToEndLatency'' [] msg) = None"
    and "calculate_delays msg res = Inr res'"
    and "\<forall>r \<in> set (relays res). delay r = 0"
  shows "delay_source res' = ''Calculated from Received headers''
       \<and> total_delay res' = sum_list (map delay (relays res'))
       \<and> map delay (relays res')
           = (case relays res of
                [] \<Rightarrow> []
              | r # rs \<Rightarrow> 0 # map (\<lambda>(p, r). hop_delay p r) (zip (r # rs) rs))"
proof -
  from assms(1,2) obtain rs tot where rd: "relay_delays (relays res) = Inr (rs, tot)"
    and src: "delay_source res' = ''Calculated from Received headers''"
    and tot: "total_delay res' = tot" and rs: "relays res' = rs"
    by (auto simp: calculate_delays_def Let_def split: sum.splits if_splits)
  show ?thesis
  proof (cases "relays res")
    case Nil
    with rd src tot rs show ?thesis
      by (simp add: relay_delays_def)
  next
    case (Cons r rest)
    with rd obtain rest' where l: "delays_loop r rest 0 = Inr (rest', tot)" and rs': "rs = r # rest'"
      by (auto simp: relay_delays_def split: sum.splits)
    from assms(3) Cons have z: "delay r = 0" and zr: "\<forall>r \<in> set rest. delay r = 0"
      by simp_all
    from delays_loop_result [OF l zr] show ?thesis
      by (simp add: src tot rs rs' Cons z)
  qed
qed

lemma delay_parse_received_header: "delay (parse_received_header L h n) = 0"
  by (simp add: parse_received_header_def set_time_def new_relay_def Let_def split: option.splits)

lemma delay_renumber_zip:
  "length ns = length rs \<Longrightarrow>
   map delay (map (\<lambda>(idx, r). r\<lparr>hop := idx\<rparr>) (zip ns rs)) = map delay rs"
  by (induction ns rs rule: list_induct2) simp_all

lemma process_relays_zero_delays:
  assumes "process_relays L msg = Inr rs" and "r \<in> set rs"
  shows "delay r = 0"
proof -
  let ?rs0 = "numbered_relays L (msg_get_all ''Received'' msg)"
  have z: "delay x = 0" if "x \<in> set ?rs0" for x
    using that by (auto simp: numbered_relays_def delay_parse_received_header simp del: upt_Suc)
  have "map delay (renumber (rev ?rs0)) = map delay (rev ?rs0)"
    unfolding renumber_def by (rule delay_renumber_zip) (simp only: length_upt_from_1)
  then have "set (map delay (renumber (rev ?rs0))) \<subseteq> {0}"
    using z by (simp only:) auto
  then have "delay x = 0" if "x \<in> set (renumber (rev ?rs0))" for x
    using that by auto
  with z process_relays_cases [OF assms(1)] assms(2) show ?thesis
    by blast
qed

lemma analyze_total_from_timestamps:
  assumes "analyze L msg = Inr result"
    and "msg_get ''X-MS-Exchange-Transport-EndToEndLatency'' [] msg = []
         \<or> parse_latency_header (msg_get ''X-MS-Exchange-Transport-EndToEndLatency'' [] msg) = None"
  shows "delay_source result = ''Calculated from Received headers''
       \<and> total_delay result = sum_list (map delay (relays result))"
proof -
  from assms(1) obtain rs res0 where p: "process_relays L msg = Inr rs"
    and c: "calculate_delays msg (extract_sender_ip L (res0\<lparr>relays := rs\<rparr>)) = Inr result"
    by (auto simp: analyze_def Let_def split: sum.splits)
  have "\<forall>r \<in> set (relays (extract_sender_ip L (res0\<lparr>relays := rs\<rparr>))). delay r = 0"
    using process_relays_zero_delays [OF p] by (simp add: relays_extract_sender_ip)
  from calculate_delays_from_timestamps [OF assms(2) c this] show ?thesis
    by simp
qed

section \<open>Sender domains\<close>

lemma split_last_append:
  "sep \<notin> set b \<Longrightarrow> split_last sep (a @ sep # b) = b"
proof -
  assume "sep \<notin> set b"
  then have "takeWhile (\<lambda>c. c \<noteq> sep) (rev b @ sep # rev a) = rev b"
    by (subst takeWhile_append2) auto
  then show ?thesis by (simp add: split_last_def)
qed

lemma split_last_no_sep: "sep \<notin> set (split_last sep s)"
  unfolding split_last_def
  by (metis (mono_tags, lifting) set_rev set_takeWhileD)

lemma headers_extract_sender_ip: "headers (extract_sender_ip L res) = headers res"
  by (simp add: extract_sender_ip_def Let_def split: option.splits list.splits)

lemma from_domain_extract_sender_ip: "from_domain (extract_sender_ip L res) = from_domain res"
  by (simp add: extract_sender_ip_def Let_def split: option.splits list.splits)

lemma return_path_domain_extract_sender_ip:
  "return_path_domain (extract_sender_ip L res) = return_path_domain res"
  by (simp add: extract_sender_ip_def Let_def split: option.splits list.splits)

lemma calculate_delays_keeps:
  assumes "calculate_delays msg res = Inr res'"
  shows "headers res' = headers res \<and> from_domain res' = from_domain res
       \<and> return_path_domain res' = return_path_domain res"
  using assms
  by (auto simp: calculate_delays_def Let_def split: option.splits sum.splits prod.splits if_splits)

lemma analyze_static_fields:
  assumes "analyze L msg = Inr result"
  shows "headers result = py_dict msg \<and> from_domain result = fst (extract_domains L msg)
       \<and> return_path_domain result = snd (extract_domains L msg)"
proof -
  from assms obtain rs res0 where
    r0: "res0 = new_result\<lparr>headers := py_dict msg, from_domain := fst (extract_domains L msg),
            return_path_domain := snd (extract_domains L msg),
            auth_results := msg_get ''Authentication-Results'' [] msg\<rparr>"
    and c: "calculate_delays msg (extract_sender_ip L (res0\<lparr>relays := rs\<rparr>)) = Inr result"
    by (auto simp: analyze_def Let_def split: sum.splits)
  from calculate_delays_keeps [OF c] show ?thesis
    by (simp add: headers_extract_sender_ip from_domain_extract_sender_ip
        return_path_domain_extract_sender_ip r0)
qed

text \<open>
  C6, as amended.  The From domain is the text after the last \<^verbatim>\<open>@\<close> of the address that
  \<^verbatim>\<open>parseaddr\<close> finds in the From header, in the letter case in which it was written
  (nothing lower-cases it), and the Return-Path domain is obtained the same way.  Each
  is the empty text when its header is absent or empty or the address holds no \<^verbatim>\<open>@\<close>
  (an address that cannot be parsed is the empty text).  Neither ever contains an
  \<^verbatim>\<open>@\<close>; the extraction is a total function, and the analysis result holds its two
  values.
\<close>

theorem domains_keep_letter_case:
  "CHR ''@'' \<notin> set (fst (extract_domains L msg))
   \<and> CHR ''@'' \<notin> set (snd (extract_domains L msg))
   \<and> (\<forall>local dom. msg_get ''From'' [] msg \<noteq> []
         \<and> snd (parseaddr L (msg_get ''From'' [] msg)) = local @ CHR ''@'' # dom
         \<and> CHR ''@'' \<notin> set dom \<longrightarrow> fst (extract_domains L msg) = dom)
   \<and> (\<forall>local dom. msg_get ''Return-Path'' [] msg \<noteq> []
         \<and> snd (parseaddr L (msg_get ''Return-Path'' [] msg)) = local @ CHR ''@'' # dom
         \<and> CHR ''@'' \<notin> set dom \<longrightarrow> snd (extract_domains L msg) = dom)
   \<and> (msg_get ''From'' [] msg = [] \<or> CHR ''@'' \<notin> set (snd (parseaddr L (msg_get ''From'' [] msg)))
         \<longrightarrow> fst (extract_domains L msg) = [])
   \<and> (msg_get ''Return-Path'' [] msg = []
         \<or> CHR ''@'' \<notin> set (snd (parseaddr L (msg_get ''Return-Path'' [] msg)))
         \<longrightarrow> snd (extract_domains L msg) = [])
   \<and> (\<forall>result. analyze L msg = Inr result \<longrightarrow>
         from_domain result = fst (extract_domains L msg)
         \<and> return_path_domain result = snd (extract_domains L msg))"
proof (intro conjI allI impI)
  show "CHR ''@'' \<notin> set (fst (extract_domains L msg))"
    by (simp add: extract_domains_def Let_def split_last_no_sep)
  show "CHR ''@'' \<notin> set (snd (extract_domains L msg))"
    by (simp add: extract_domains_def Let_def split_last_no_sep)
  show "fst (extract_domains L msg) = dom"
    if "msg_get ''From'' [] msg \<noteq> []
         \<and> snd (parseaddr L (msg_get ''From'' [] msg)) = local @ CHR ''@'' # dom
         \<and> CHR ''@'' \<notin> set dom" for local dom
    using that by (simp add: extract_domains_def Let_def split_last_append)
  show "snd (extract_domains L msg) = dom"
    if "msg_get ''Return-Path'' [] msg \<noteq> []
         \<and> snd (parseaddr L (msg_get ''Return-Path'' [] msg)) = local @ CHR ''@'' # dom
         \<and> CHR ''@'' \<notin> set dom" for local dom
    using that by (simp add: extract_domains_def Let_def split_last_append)
  show "fst (extract_domains L msg) = []"
    if "msg_get ''From'' [] msg = [] \<or> CHR ''@'' \<notin> set (snd (parseaddr L (msg_get ''From'' [] msg)))"
    using that by (auto simp: extract_domains_def Let_def)
  show "snd (extract_domains L msg) = []"
    if "msg_get ''Return-Path'' [] msg = []
         \<or> CHR ''@'' \<notin> set (snd (parseaddr L (msg_get ''Return-Path'' [] msg)))"
    using that by (auto simp: extract_domains_def Let_def)
  show "from_domain result = fst (extract_domains L msg)" if "analyze L msg = Inr result" for result
    using analyze_static_fields [OF that] by simp
  show "return_path_domain result = snd (extract_domains L msg)" if "analyze L msg = Inr result" for result
    using analyze_static_fields [OF that] by simp
qed

theorem domains_keep_letter_case_witness:
  "fst (extract_domains sample_lib sample_from) = ''EXAMPLE.COM''"
proof -
  have "msg_get ''From'' [] sample_from \<noteq> []
         \<and> snd (parseaddr sample_lib (msg_get ''From'' [] sample_from)) = ''User'' @ CHR ''@'' # ''EXAMPLE.COM''
         \<and> CHR ''@'' \<notin> set ''EXAMPLE.COM''"
    by (simp add: msg_get_def sample_from_def sample_lib_def)
  with domains_keep_letter_case [of sample_lib sample_from] show ?thesis
    by blast
qed

text \<open>
  C6 as stated fails: for the From header \<^verbatim>\<open>User@EXAMPLE.COM\<close> the domain in the result
  is \<^verbatim>\<open>EXAMPLE.COM\<close>, not its lower-cased form \<^verbatim>\<open>example.com\<close>.
\<close>

theorem from_domain_not_lower_cased:
  "fst (extract_domains sample_lib sample_from) = ''EXAMPLE.COM''
   \<and> lower (split_last (CHR ''@'') (snd (parseaddr sample_lib (msg_get ''From'' [] sample_from))))
       = ''example.com''
   \<and> map from_domain [projr (analyze sample_lib sample_from)] = [''EXAMPLE.COM'']
   \<and> \<not> isl (analyze sample_lib sample_from)"
proof (intro conjI)
  show "fst (extract_domains sample_lib sample_from) = ''EXAMPLE.COM''"
    by (simp add: extract_domains_def msg_get_def sample_from_def sample_lib_def text_defs)
  show "lower (split_last (CHR ''@'') (snd (parseaddr sample_lib (msg_get ''From'' [] sample_from))))
       = ''example.com''"
    by code_simp
  show "map from_domain [projr (analyze sample_lib sample_from)] = [''EXAMPLE.COM'']"
    by code_simp
  show "\<not> isl (analyze sample_lib sample_from)"
    by code_simp
qed

section \<open>The header dictionary\<close>

lemma keys_dict_set:
  "map fst (dict_set k v d) = (if k \<in> set (map fst d) then map fst d else map fst d @ [k])"
proof (induction d)
  case Nil
  show ?case by simp
next
  case (Cons p d)
  obtain k' v' where p: "p = (k', v')" by (cases p)
  show ?case
  proof (cases "k' = k")
    case True
    then show ?thesis by (simp add: p)
  next
    case False
    then show ?thesis using Cons.IH by (simp add: p)
  qed
qed

lemma key_set_dict_set: "set (map fst (dict_set k v d)) = insert k (set (map fst d))"
  by (simp only: keys_dict_set) auto

lemma map_of_dict_set: "map_of (dict_set k v d) = (map_of d)(k \<mapsto> v)"
  by (induction d) (auto simp: fun_eq_iff)

lemma distinct_dict_set: "distinct (map fst d) \<Longrightarrow> distinct (map fst (dict_set k v d))"
  by (simp add: keys_dict_set)

lemma dict_set_fresh: "k \<notin> set (map fst d) \<Longrightarrow> dict_set k v d = d @ [(k, v)]"
  by (induction d) auto

lemma distinct_foldl_dict_set:
  "distinct (map fst d) \<Longrightarrow> distinct (map fst (foldl (\<lambda>d (k, v). dict_set k v d) d ps))"
  by (induction ps arbitrary: d) (auto simp: distinct_dict_set)

lemma map_of_foldl_dict_set:
  "map_of (foldl (\<lambda>d (k, v). dict_set k v d) d ps) = map_of d ++ map_of (rev ps)"
proof (induction ps arbitrary: d)
  case Nil
  show ?case by simp
next
  case (Cons p ps)
  obtain k v where p: "p = (k, v)" by (cases p)
  have "map_of (foldl (\<lambda>d (k, v). dict_set k v d) d (p # ps))
        = map_of (dict_set k v d) ++ map_of (rev ps)"
    by (simp add: p Cons.IH)
  also have "\<dots> = (map_of d)(k \<mapsto> v) ++ map_of (rev ps)"
    by (simp add: map_of_dict_set)
  also have "\<dots> = map_of d ++ map_of (rev (p # ps))"
    by (simp add: p fun_eq_iff map_add_def split: option.splits)
  finally show ?case .
qed

lemma keys_foldl_dict_set:
  "set (map fst (foldl (\<lambda>d (k, v). dict_set k v d) d ps)) = set (map fst d) \<union> set (map fst ps)"
proof (induction ps arbitrary: d)
  case Nil
  show ?case by simp
next
  case (Cons p ps)
  obtain k v where p: "p = (k, v)" by (cases p)
  have "set (map fst (foldl (\<lambda>d (k, v). dict_set k v d) d (p # ps)))
        = set (map fst (dict_set k v d)) \<union> set (map fst ps)"
    by (simp add: p Cons.IH del: set_map)
  also have "\<dots> = set (map fst d) \<union> set (map fst (p # ps))"
    by (simp only: key_set_dict_set) (simp add: p)
  finally show ?case .
qed

lemma foldl_dict_set_distinct:
  "distinct (map fst (d @ ps)) \<Longrightarrow> foldl (\<lambda>d (k, v). dict_set k v d) d ps = d @ ps"
proof (induction ps arbitrary: d)
  case Nil
  show ?case by simp
next
  case (Cons p ps)
  obtain k v where p: "p = (k, v)" by (cases p)
  from Cons.prems have fresh: "k \<notin> set (map fst d)" and d: "distinct (map fst ((d @ [p]) @ ps))"
    by (auto simp: p)
  have "foldl (\<lambda>d (k, v). dict_set k v d) d (p # ps)
        = foldl (\<lambda>d (k, v). dict_set k v d) (d @ [p]) ps"
    by (simp add: p dict_set_fresh [OF fresh])
  also have "\<dots> = (d @ [p]) @ ps"
    by (rule Cons.IH [OF d])
  finally show ?case by simp
qed

lemma py_dict_distinct: "distinct (map fst (py_dict ps))"
  unfolding py_dict_def by (rule distinct_foldl_dict_set) simp

lemma py_dict_last_wins: "map_of (py_dict ps) = map_of (rev ps)"
  unfolding py_dict_def by (simp add: map_of_foldl_dict_set)

lemma py_dict_keys: "set (map fst (py_dict ps)) = set (map fst ps)"
  unfolding py_dict_def by (simp only: keys_foldl_dict_set) simp

lemma py_dict_snoc: "py_dict (ps @ [(k, v)]) = dict_set k v (py_dict ps)"
  by (simp add: py_dict_def)

lemma py_dict_key_order: "map fst (py_dict ps) = rev (remdups (rev (map fst ps)))"
proof (induction ps rule: rev_induct)
  case Nil
  show ?case by (simp add: py_dict_def)
next
  case (snoc p ps)
  obtain k v where p: "p = (k, v)" by (cases p)
  have "set (map fst (py_dict ps)) = set (map fst ps)"
    by (rule py_dict_keys)
  then show ?case
    by (simp add: p py_dict_snoc keys_dict_set snoc.IH del: set_map)
qed

lemma py_dict_unchanged_iff: "py_dict ps = ps \<longleftrightarrow> distinct (map fst ps)"
proof
  assume "py_dict ps = ps"
  then show "distinct (map fst ps)" using py_dict_distinct [of ps] by simp
next
  assume "distinct (map fst ps)"
  then show "py_dict ps = ps"
    unfolding py_dict_def using foldl_dict_set_distinct [of "[]" ps] by simp
qed

text \<open>
  C7, as amended.  The header collection of an analysis result is the dictionary built
  from the (name, value) pairs in order: every name occurs in it once (names compared
  as written), at the position of its first occurrence, with the value of its last
  occurrence.  It is the original sequence of pairs exactly when no name is repeated.
\<close>

theorem headers_are_a_dictionary:
  "(\<forall>result. analyze L msg = Inr result \<longrightarrow> headers result = py_dict msg)
   \<and> distinct (map fst (py_dict msg))
   \<and> map fst (py_dict msg) = rev (remdups (rev (map fst msg)))
   \<and> map_of (py_dict msg) = map_of (rev msg)
   \<and> (py_dict msg = msg \<longleftrightarrow> distinct (map fst msg))"
proof (intro conjI allI impI)
  show "headers result = py_dict msg" if "analyze L msg = Inr result" for result
    using analyze_static_fields [OF that] by simp
  show "distinct (map fst (py_dict msg))"
    by (rule py_dict_distinct)
  show "map fst (py_dict msg) = rev (remdups (rev (map fst msg)))"
    by (rule py_dict_key_order)
  show "map_of (py_dict msg) = map_of (rev msg)"
    by (rule py_dict_last_wins)
  show "py_dict msg = msg \<longleftrightarrow> distinct (map fst msg)"
    by (rule py_dict_unchanged_iff)
qed

theorem headers_are_a_dictionary_witness:
  "\<exists>result. analyze sample_lib sample_from = Inr result \<and> headers result = sample_from"
proof -
  have "\<not> isl (analyze sample_lib sample_from)"
    by code_simp
  then obtain result where r: "analyze sample_lib sample_from = Inr result"
    by (cases "analyze sample_lib sample_from") simp_all
  have d: "distinct (map fst sample_from)"
    by (simp add: sample_from_def)
  from headers_are_a_dictionary [of sample_lib sample_from] r d
  have "headers result = sample_from"
    by simp
  with r show ?thesis by (intro exI conjI)
qed

text \<open>
  C7 as stated fails: of two Received headers the result keeps one entry, with the
  value of the lower header.
\<close>

theorem repeated_received_headers_collapse:
  "\<not> isl (analyze sample_lib sample_forward)
   \<and> map headers [projr (analyze sample_lib sample_forward)]
       = [[(''Received'', ''id A1; Mon, 01 Jan 2024 10:00:00 +0000'')]]
   \<and> msg_get_all ''Received'' sample_forward
       = [''id B2; Mon, 01 Jan 2024 10:00:10 +0000'', ''id A1; Mon, 01 Jan 2024 10:00:00 +0000'']"
proof (intro conjI)
  show "\<not> isl (analyze sample_lib sample_forward)"
    by code_simp
  show "map headers [projr (analyze sample_lib sample_forward)]
       = [[(''Received'', ''id A1; Mon, 01 Jan 2024 10:00:00 +0000'')]]"
    by code_simp
  show "msg_get_all ''Received'' sample_forward
       = [''id B2; Mon, 01 Jan 2024 10:00:10 +0000'', ''id A1; Mon, 01 Jan 2024 10:00:00 +0000'']"
    by code_simp
qed

section \<open>Blacklist results\<close>

lemma check_single_blacklist_cases:
  "check_single_blacklist resolve rip zone =
     (if resolve (rip @ ''.'' @ zone) = Answer then Some True
      else if resolve (rip @ ''.'' @ zone) = NXDOMAIN then Some False else None)"
  by (simp add: check_single_blacklist_def split: dns_outcome.splits)

lemma foldl_dict_set_names:
  "foldl (\<lambda>results (h, n). dict_set n (f h) results) d bl
     = foldl (\<lambda>d (k, v). dict_set k v d) d (map (\<lambda>(h, n). (n, f h)) bl)"
  by (induction bl arbitrary: d) (auto simp: case_prod_unfold)

lemma map_of_rev_distinct: "distinct (map fst xs) \<Longrightarrow> map_of (rev xs) = map_of xs"
  by (rule ext) (metis distinct_rev map_of_eq_None_iff map_of_is_SomeI map_of_SomeD not_Some_eq
      rev_map set_rev)

lemma distinct_blacklist_names: "distinct (map snd BLACKLISTS)"
  by (simp add: BLACKLISTS_def)

lemma check_ip_entry:
  assumes "is_valid_public_ip a" and "(zone, name) \<in> set BLACKLISTS"
  shows "map_of (check_ip is_valid_public_ip resolve a) name
       = Some (check_single_blacklist resolve (join (CHR ''.'') (rev (split_on (CHR ''.'') a))) zone)"
proof -
  let ?f = "check_single_blacklist resolve (join (CHR ''.'') (rev (split_on (CHR ''.'') a)))"
  let ?xs = "map (\<lambda>(h, n). (n, ?f h)) BLACKLISTS"
  have d: "distinct (map fst ?xs)"
    using distinct_blacklist_names by (simp add: case_prod_unfold comp_def)
  have "check_ip is_valid_public_ip resolve a = foldl (\<lambda>d (k, v). dict_set k v d) [] ?xs"
    using assms(1) by (simp add: check_ip_def Let_def foldl_dict_set_names)
  then have "map_of (check_ip is_valid_public_ip resolve a) = map_of ?xs"
    by (simp add: map_of_foldl_dict_set map_of_rev_distinct [OF d])
  moreover have "(name, ?f zone) \<in> set ?xs"
    using assms(2) by force
  ultimately show ?thesis
    using map_of_is_SomeI [OF d] by simp
qed

text \<open>
  C8.  The result of one zone query is a genuine tri-state: \<open>Some True\<close> exactly when the
  query is answered, \<open>Some False\<close> exactly when it ends in NXDOMAIN, and the third value
  \<open>None\<close> for every other outcome (a timeout, no usable name server, an empty answer, any
  other DNS exception); and for a valid public address the result table of \<^verbatim>\<open>check_ip\<close>
  holds, under the name of each configured zone, the result of that zone's query.
\<close>

theorem blacklist_result_is_tristate:
  "(check_single_blacklist resolve rip zone = Some True
      \<longleftrightarrow> resolve (rip @ ''.'' @ zone) = Answer)
   \<and> (check_single_blacklist resolve rip zone = Some False
      \<longleftrightarrow> resolve (rip @ ''.'' @ zone) = NXDOMAIN)
   \<and> (check_single_blacklist resolve rip zone = None
      \<longleftrightarrow> resolve (rip @ ''.'' @ zone) \<in> {NoAnswer, Timeout, NoNameservers, YXDOMAIN, OtherDNSException})
   \<and> (is_valid_public_ip a \<and> (zone, name) \<in> set BLACKLISTS \<longrightarrow>
        map_of (check_ip is_valid_public_ip resolve a) name
          = Some (check_single_blacklist resolve (join (CHR ''.'') (rev (split_on (CHR ''.'') a))) zone))"
proof (intro conjI impI)
  show "check_single_blacklist resolve rip zone = Some True
      \<longleftrightarrow> resolve (rip @ ''.'' @ zone) = Answer"
    by (simp add: check_single_blacklist_def split: dns_outcome.splits)
  show "check_single_blacklist resolve rip zone = Some False
      \<longleftrightarrow> resolve (rip @ ''.'' @ zone) = NXDOMAIN"
    by (simp add: check_single_blacklist_def split: dns_outcome.splits)
  show "check_single_blacklist resolve rip zone = None
      \<longleftrightarrow> resolve (rip @ ''.'' @ zone) \<in> {NoAnswer, Timeout, NoNameservers, YXDOMAIN, OtherDNSException}"
    by (simp add: check_single_blacklist_def split: dns_outcome.splits)
  show "map_of (check_ip is_valid_public_ip resolve a) name
          = Some (check_single_blacklist resolve (join (CHR ''.'') (rev (split_on (CHR ''.'') a))) zone)"
    if "is_valid_public_ip a \<and> (zone, name) \<in> set BLACKLISTS"
    using that by (simp add: check_ip_entry)
qed

theorem blacklist_result_is_tristate_witness:
  "map_of (check_ip (\<lambda>a. a = ''1.2.3.4'') sample_resolve ''1.2.3.4'') ''Spamhaus ZEN'' = Some (Some True)
   \<and> map_of (check_ip (\<lambda>a. a = ''1.2.3.4'') sample_resolve ''1.2.3.4'') ''Barracuda'' = Some (Some False)
   \<and> map_of (check_ip (\<lambda>a. a = ''1.2.3.4'') sample_resolve ''1.2.3.4'') ''SpamCop'' = Some None"
proof -
  have r: "join (CHR ''.'') (rev (split_on (CHR ''.'') ''1.2.3.4'')) = ''4.3.2.1''"
    by code_simp
  have z1: "(''zen.spamhaus.org'', ''Spamhaus ZEN'') \<in> set BLACKLISTS"
    and z2: "(''b.barracudacentral.org'', ''Barracuda'') \<in> set BLACKLISTS"
    and z3: "(''bl.spamcop.net'', ''SpamCop'') \<in> set BLACKLISTS"
    by (simp_all add: BLACKLISTS_def)
  have c1: "check_single_blacklist sample_resolve ''4.3.2.1'' ''zen.spamhaus.org'' = Some True"
    and c2: "check_single_blacklist sample_resolve ''4.3.2.1'' ''b.barracudacentral.org'' = Some False"
    and c3: "check_single_blacklist sample_resolve ''4.3.2.1'' ''bl.spamcop.net'' = None"
    by (simp_all add: check_single_blacklist_def sample_resolve_def)
  have e: "map_of (check_ip (\<lambda>a. a = ''1.2.3.4'') sample_resolve ''1.2.3.4'') name
        = Some (check_single_blacklist sample_resolve ''4.3.2.1'' zone)"
    if "(zone, name) \<in> set BLACKLISTS" for zone name
    using blacklist_result_is_tristate [where resolve = sample_resolve and zone = zone
        and name = name and is_valid_public_ip = "\<lambda>a. a = ''1.2.3.4''" and a = "''1.2.3.4''"] that
    by (simp add: r)
  show ?thesis
    using e [OF z1] e [OF z2] e [OF z3] by (simp add: c1 c2 c3)
qed
section \<open>Expiry of cached geolocation entries\<close>

lemma get_cached_ip_info_fresh:
  assumes "get_cached_ip_info now svc a = Some data"
  shows "disk svc (cache_name a) = Entry data
       \<and> now - (case cached_at data of None \<Rightarrow> 0 | Some t \<Rightarrow> t) < 7 * 24 * 3600"
  using assms
  by (auto simp: get_cached_ip_info_def split: cache_file.splits if_splits)

lemma get_cached_ip_info_stale:
  assumes "disk svc (cache_name a) = Entry data"
    and "7 * 24 * 3600 \<le> now - (case cached_at data of None \<Rightarrow> 0 | Some t \<Rightarrow> t)"
  shows "get_cached_ip_info now svc a = None"
  using assms by (simp add: get_cached_ip_info_def)

lemma get_ip_info_body_stale:
  assumes "valid_ip E a" and "\<not> private_ip E a"
    and "disk svc (cache_name a) = Entry data"
    and "7 * 24 * 3600 \<le> now - (case cached_at data of None \<Rightarrow> 0 | Some t \<Rightarrow> t)"
  shows "get_ip_info_body E now svc a = (fst (fresh_lookup E svc a), snd (fresh_lookup E svc a), True)"
  using assms(1,2) get_cached_ip_info_stale [OF assms(3,4)]
  by (simp add: get_ip_info_body_def)

text \<open>
  C9, as amended.  Reading the cache directory never yields an entry whose age (the
  time since its \<^verbatim>\<open>_cached_at\<close>, or since time 0 when it has none) is seven days or
  more; the seven days are a constant of the code.  A lookup of a valid public address
  that the service object has not memoised, finding such an entry on disk, treats it as
  a miss: it sends the request to the remote service and returns what the fresh lookup
  gives.
\<close>

theorem expired_entry_is_a_miss:
  "(\<forall>data. get_cached_ip_info now svc a = Some data \<longrightarrow>
       disk svc (cache_name a) = Entry data
       \<and> now - (case cached_at data of None \<Rightarrow> 0 | Some t \<Rightarrow> t) < 7 * 24 * 3600)
   \<and> (\<forall>data. valid_ip E a \<and> \<not> private_ip E a \<and> map_of (memo svc) a = None
         \<and> disk svc (cache_name a) = Entry data
         \<and> 7 * 24 * 3600 \<le> now - (case cached_at data of None \<Rightarrow> 0 | Some t \<Rightarrow> t) \<longrightarrow>
       fst (get_ip_info E now svc a) = fst (fresh_lookup E svc a)
       \<and> snd (snd (get_ip_info E now svc a)) = True)"
proof (intro conjI allI impI)
  fix data
  assume "get_cached_ip_info now svc a = Some data"
  from get_cached_ip_info_fresh [OF this]
  show "disk svc (cache_name a) = Entry data"
    and "now - (case cached_at data of None \<Rightarrow> 0 | Some t \<Rightarrow> t) < 7 * 24 * 3600"
    by simp_all
next
  fix data
  assume h: "valid_ip E a \<and> \<not> private_ip E a \<and> map_of (memo svc) a = None
         \<and> disk svc (cache_name a) = Entry data
         \<and> 7 * 24 * 3600 \<le> now - (case cached_at data of None \<Rightarrow> 0 | Some t \<Rightarrow> t)"
  then have b: "get_ip_info_body E now svc a
      = (fst (fresh_lookup E svc a), snd (fresh_lookup E svc a), True)"
    by (intro get_ip_info_body_stale) (use h in auto)
  from h b show "fst (get_ip_info E now svc a) = fst (fresh_lookup E svc a)"
    by (simp add: get_ip_info_def)
  from h b show "snd (snd (get_ip_info E now svc a)) = True"
    by (simp add: get_ip_info_def)
qed

theorem expired_entry_is_a_miss_witness:
  "fst (get_ip_info sample_env 691200 sample_service ''8.8.8.8'')
     = \<lparr>entries = [(''error'', ''Request timed out''), (''ip'', ''8.8.8.8'')], cached_at = None\<rparr>
   \<and> snd (snd (get_ip_info sample_env 691200 sample_service ''8.8.8.8'')) = True"
proof -
  have "valid_ip sample_env ''8.8.8.8'' \<and> \<not> private_ip sample_env ''8.8.8.8''
         \<and> map_of (memo sample_service) ''8.8.8.8'' = None
         \<and> disk sample_service (cache_name ''8.8.8.8'') = Entry sample_entry
         \<and> 7 * 24 * 3600 \<le> 691200 - (case cached_at sample_entry of None \<Rightarrow> 0 | Some t \<Rightarrow> t)"
    by (simp add: sample_env_def sample_service_def sample_entry_def cache_name_def)
  with expired_entry_is_a_miss [of 691200 sample_service "''8.8.8.8''" sample_env]
  have "fst (get_ip_info sample_env 691200 sample_service ''8.8.8.8'')
          = fst (fresh_lookup sample_env sample_service ''8.8.8.8'')
        \<and> snd (snd (get_ip_info sample_env 691200 sample_service ''8.8.8.8'')) = True"
    by blast
  moreover have "fst (fresh_lookup sample_env sample_service ''8.8.8.8'')
      = \<lparr>entries = [(''error'', ''Request timed out''), (''ip'', ''8.8.8.8'')], cached_at = None\<rparr>"
    by (simp add: fresh_lookup_def sample_env_def)
  ultimately show ?thesis by simp
qed

text \<open>
  C9 as stated fails.  A service object looks the address up when the entry on disk is six
  days old and is served from the cache; the decorator memoises that result.  Two days
  later the same object is asked again: it returns the entry, now eight days old, and
  sends no request.
\<close>

theorem memoised_entry_outlives_expiry:
  "fst (get_ip_info sample_env 518400 sample_service ''8.8.8.8'') = sample_entry
   \<and> fst (get_ip_info sample_env 691200
            (fst (snd (get_ip_info sample_env 518400 sample_service ''8.8.8.8''))) ''8.8.8.8'')
       = sample_entry
   \<and> snd (snd (get_ip_info sample_env 691200
            (fst (snd (get_ip_info sample_env 518400 sample_service ''8.8.8.8''))) ''8.8.8.8''))
       = False
   \<and> cached_at sample_entry = Some 0
   \<and> (7 * 24 * 3600 :: rat) \<le> 691200 - 0"
proof (intro conjI)
  have first: "get_ip_info sample_env 518400 sample_service ''8.8.8.8''
      = (sample_entry, sample_service\<lparr>memo := [(''8.8.8.8'', sample_entry)]\<rparr>, False)"
    by (simp add: get_ip_info_def get_ip_info_body_def get_cached_ip_info_def dict_nonempty_def
        sample_env_def sample_service_def sample_entry_def cache_name_def)
  have state: "fst (snd (get_ip_info sample_env 518400 sample_service ''8.8.8.8''))
      = sample_service\<lparr>memo := [(''8.8.8.8'', sample_entry)]\<rparr>"
    by (simp only: first fst_conv snd_conv)
  show "fst (get_ip_info sample_env 518400 sample_service ''8.8.8.8'') = sample_entry"
    by (simp only: first fst_conv)
  show "fst (get_ip_info sample_env 691200
            (fst (snd (get_ip_info sample_env 518400 sample_service ''8.8.8.8''))) ''8.8.8.8'')
       = sample_entry"
    unfolding state by (simp add: get_ip_info_def)
  show "snd (snd (get_ip_info sample_env 691200
            (fst (snd (get_ip_info sample_env 518400 sample_service ''8.8.8.8''))) ''8.8.8.8''))
       = False"
    unfolding state by (simp add: get_ip_info_def)
  show "cached_at sample_entry = Some 0"
    by (simp add: sample_entry_def)
  show "(7 * 24 * 3600 :: rat) \<le> 691200 - 0"
    by simp
qed

section \<open>The timestamp of a hop\<close>

lemma is_space_newline: "is_space newline"
  by (simp add: is_space_def newline_def)

lemma match_dot_plus_eol_Some:
  "match_dot_plus_eol t = Some g
     \<longleftrightarrow> g \<noteq> [] \<and> newline \<notin> set g \<and> (t = g \<or> t = g @ [newline])"
proof
  assume m: "match_dot_plus_eol t = Some g"
  let ?P = "\<lambda>c. c \<noteq> newline"
  from m have g: "g = takeWhile ?P t" and ne: "g \<noteq> []"
    and r: "dropWhile ?P t = [] \<or> dropWhile ?P t = [newline]"
    by (auto simp: match_dot_plus_eol_def Let_def split: if_splits)
  have td: "takeWhile ?P t @ dropWhile ?P t = t"
    by simp
  have nl: "newline \<notin> set g"
    unfolding g by (auto dest: set_takeWhileD)
  from r have "g = t \<or> g @ [newline] = t"
  proof
    assume d: "dropWhile ?P t = []"
    have "g = t"
      unfolding g using td by (simp only: d append_Nil2)
    then show ?thesis ..
  next
    assume d: "dropWhile ?P t = [newline]"
    have "g @ [newline] = t"
      unfolding g using td by (simp only: d)
    then show ?thesis ..
  qed
  then have "t = g \<or> t = g @ [newline]"
    by auto
  with ne nl show "g \<noteq> [] \<and> newline \<notin> set g \<and> (t = g \<or> t = g @ [newline])"
    by simp
next
  assume a: "g \<noteq> [] \<and> newline \<notin> set g \<and> (t = g \<or> t = g @ [newline])"
  let ?P = "\<lambda>c. c \<noteq> newline"
  from a have all: "\<And>x. x \<in> set g \<Longrightarrow> ?P x"
    by auto
  from a consider "t = g" | "t = g @ [newline]"
    by auto
  then show "match_dot_plus_eol t = Some g"
  proof cases
    case 1
    have tw: "takeWhile ?P g = g"
      by (rule takeWhile_eq_all_conv [THEN iffD2]) (use all in blast)
    have dw: "dropWhile ?P g = []"
      by (rule dropWhile_eq_Nil_conv [THEN iffD2]) (use all in blast)
    show ?thesis
      unfolding match_dot_plus_eol_def Let_def 1 tw dw using a by simp
  next
    case 2
    have tw: "takeWhile ?P (g @ [newline]) = g"
      using all by (simp add: takeWhile_append2)
    have dw: "dropWhile ?P (g @ [newline]) = [newline]"
      using all by (simp add: dropWhile_append2)
    show ?thesis
      unfolding match_dot_plus_eol_def Let_def 2 tw dw using a by simp
  qed
qed

lemma match_time_from_sound:
  "match_time_from j t = Some g \<Longrightarrow> \<exists>i \<le> j. match_dot_plus_eol (drop i t) = Some g"
proof (induction j)
  case 0
  then show ?case by simp
next
  case (Suc j)
  show ?case
  proof (cases "match_dot_plus_eol (drop (Suc j) t)")
    case None
    with Suc.prems have "match_time_from j t = Some g" by simp
    from Suc.IH [OF this] show ?thesis using le_Suc_eq by blast
  next
    case (Some g')
    with Suc.prems have "g' = g" by simp
    with Some show ?thesis by blast
  qed
qed

lemma match_time_from_complete:
  "i \<le> j \<Longrightarrow> match_dot_plus_eol (drop i t) \<noteq> None \<Longrightarrow> match_time_from j t \<noteq> None"
proof (induction j)
  case 0
  then show ?case by simp
next
  case (Suc j)
  show ?case
  proof (cases "match_dot_plus_eol (drop (Suc j) t)")
    case (Some g')
    then show ?thesis by simp
  next
    case None
    with Suc.prems have "i \<le> j"
      by (metis le_Suc_eq)
    from Suc.IH [OF this Suc.prems(2)] None show ?thesis by simp
  qed
qed

lemma take_spaces:
  "i \<le> length (takeWhile is_space t) \<Longrightarrow> list_all is_space (take i t)"
proof (induction t arbitrary: i)
  case Nil
  show ?case by simp
next
  case (Cons c t)
  show ?case
  proof (cases i)
    case 0
    then show ?thesis by simp
  next
    case (Suc k)
    with Cons.prems have c: "is_space c" and k: "k \<le> length (takeWhile is_space t)"
      by (auto split: if_splits)
    from Cons.IH [OF k] c show ?thesis by (simp add: Suc)
  qed
qed

lemma match_time_decomposition:
  assumes "match_time t = Some g"
  shows "\<exists>ws tl. t = ws @ g @ tl \<and> list_all is_space ws \<and> g \<noteq> [] \<and> newline \<notin> set g
           \<and> (tl = [] \<or> tl = [newline])"
proof -
  from assms obtain i where i: "i \<le> length (takeWhile is_space t)"
    and m: "match_dot_plus_eol (drop i t) = Some g"
    unfolding match_time_def using match_time_from_sound by blast
  from m have g: "g \<noteq> []" "newline \<notin> set g" and d: "drop i t = g \<or> drop i t = g @ [newline]"
    by (simp_all add: match_dot_plus_eol_Some)
  have t: "t = take i t @ drop i t" by simp
  from d show ?thesis
  proof
    assume "drop i t = g"
    with t have "t = take i t @ g @ []" by simp
    with g take_spaces [OF i] show ?thesis by blast
  next
    assume "drop i t = g @ [newline]"
    with t have "t = take i t @ g @ [newline]" by simp
    with g take_spaces [OF i] show ?thesis by blast
  qed
qed

lemma match_time_one_line_rest: "match_time t = Some g \<Longrightarrow> one_line_rest t"
  unfolding one_line_rest_def using match_time_decomposition by blast

lemma one_line_rest_match_time:
  assumes "one_line_rest t"
  shows "match_time t \<noteq> None"
proof -
  from assms obtain ws g tl where t: "t = ws @ g @ tl" and ws: "list_all is_space ws"
    and g: "g \<noteq> []" "newline \<notin> set g" and tl: "tl = [] \<or> tl = [newline]"
    unfolding one_line_rest_def by blast
  have "takeWhile is_space t = ws @ takeWhile is_space (g @ tl)"
    unfolding t using ws by (simp add: takeWhile_append2 list_all_iff)
  then have le: "length ws \<le> length (takeWhile is_space t)"
    by simp
  have "drop (length ws) t = g @ tl"
    by (simp add: t)
  then have "match_dot_plus_eol (drop (length ws) t) = Some g"
    using g tl by (auto simp: match_dot_plus_eol_Some)
  then show ?thesis
    unfolding match_time_def using match_time_from_complete [OF le] by simp
qed

lemma strip_leading_spaces: "list_all is_space ws \<Longrightarrow> strip (ws @ s) = strip s"
  by (simp add: strip_def dropWhile_append2 list_all_iff)

lemma strip_trailing_newline: "strip (s @ [newline]) = strip s"
proof (cases "\<forall>x \<in> set s. is_space x")
  case True
  have d1: "dropWhile is_space s = []"
    by (rule dropWhile_eq_Nil_conv [THEN iffD2]) (use True in blast)
  have d2: "dropWhile is_space (s @ [newline]) = []"
    by (rule dropWhile_eq_Nil_conv [THEN iffD2]) (use True is_space_newline in auto)
  show ?thesis unfolding strip_def d1 d2 ..
next
  case False
  then have "dropWhile is_space (s @ [newline]) = dropWhile is_space s @ [newline]"
    by (simp add: dropWhile_append)
  then show ?thesis by (simp add: strip_def is_space_newline)
qed

lemma match_time_strip:
  assumes "match_time t = Some g"
  shows "strip g = strip t"
proof -
  from match_time_decomposition [OF assms] obtain ws tl where
    t: "t = ws @ g @ tl" and ws: "list_all is_space ws" and tl: "tl = [] \<or> tl = [newline]"
    by blast
  from tl have "strip (g @ tl) = strip g"
    by (auto simp: strip_trailing_newline)
  then show ?thesis
    unfolding t by (simp add: strip_leading_spaces [OF ws])
qed

lemma search_time_first_admissible:
  assumes "one_line_rest t"
    and "\<forall>i < length a. a ! i = CHR '';'' \<longrightarrow> \<not> one_line_rest (drop (Suc i) (a @ CHR '';'' # t))"
  shows "\<exists>g. search_time (a @ CHR '';'' # t) = Some g \<and> strip g = strip t"
  using assms(2)
proof (induction a)
  case Nil
  from one_line_rest_match_time [OF assms(1)] obtain g where g: "match_time t = Some g"
    by blast
  then show ?case using match_time_strip [OF g] by simp
next
  case (Cons c a)
  have later: "\<forall>i < length a. a ! i = CHR '';'' \<longrightarrow> \<not> one_line_rest (drop (Suc i) (a @ CHR '';'' # t))"
  proof (intro allI impI)
    fix i assume "i < length a" and "a ! i = CHR '';''"
    then have "Suc i < length (c # a)" and "(c # a) ! Suc i = CHR '';''"
      by simp_all
    with Cons.prems have "\<not> one_line_rest (drop (Suc (Suc i)) ((c # a) @ CHR '';'' # t))"
      by blast
    then show "\<not> one_line_rest (drop (Suc i) (a @ CHR '';'' # t))"
      by simp
  qed
  show ?case
  proof (cases "c = CHR '';''")
    case False
    then show ?thesis using Cons.IH [OF later] by simp
  next
    case True
    with Cons.prems have "\<not> one_line_rest (drop (Suc 0) ((c # a) @ CHR '';'' # t))"
      by auto
    then have "match_time (a @ CHR '';'' # t) = None"
      using match_time_one_line_rest by fastforce
    then show ?thesis using True Cons.IH [OF later] by simp
  qed
qed

lemma search_time_no_semicolon: "CHR '';'' \<notin> set header \<Longrightarrow> search_time header = None"
  by (induction header) auto

lemma one_line_rest_no_newline:
  assumes "t \<noteq> []" and "newline \<notin> set t"
  shows "one_line_rest t"
  unfolding one_line_rest_def
proof (intro exI conjI)
  show "t = [] @ t @ []" by simp
  show "list_all is_space []" by simp
  show "t \<noteq> []" by (rule assms(1))
  show "newline \<notin> set t" by (rule assms(2))
  show "[] = [] \<or> [] = [newline]" by simp
qed

lemma time_of_parsed_header:
  "time (parse_received_header L header n) =
     (case timestamp_text header of
        None \<Rightarrow> []
      | Some ts \<Rightarrow>
          (case parsedate_to_datetime L ts of
             None \<Rightarrow> ts
           | Some d \<Rightarrow> (case strftime L d of None \<Rightarrow> ts | Some f \<Rightarrow> f)))"
  by (simp add: parse_received_header_def set_time_def timestamp_text_def new_relay_def Let_def
      split: option.splits)

lemma time_dt_of_parsed_header:
  "time_dt (parse_received_header L header n) =
     (case timestamp_text header of
        None \<Rightarrow> None
      | Some ts \<Rightarrow> parsedate_to_datetime L ts)"
  by (simp add: parse_received_header_def set_time_def timestamp_text_def new_relay_def Let_def
      split: option.splits)

text \<open>
  C5, as amended.  The timestamp text of a Received header is the whitespace-stripped
  text that follows the first semicolon after which the header consists of optional
  whitespace, one non-empty line and at most one final newline; in a header without line
  breaks that is the first semicolon (not the last one), provided something follows it.
  A header without a semicolon has no timestamp text, and its hop has an empty time
  field and no parsed timestamp.  When the timestamp text fails to parse as a date, the
  raw text is kept in the hop's time field and the parsed timestamp stays empty; when it
  parses, the parsed timestamp is that date.
\<close>

theorem timestamp_follows_first_admissible_semicolon:
  "(one_line_rest t
      \<and> (\<forall>i < length a. a ! i = CHR '';'' \<longrightarrow> \<not> one_line_rest (drop (Suc i) (a @ CHR '';'' # t)))
      \<longrightarrow> timestamp_text (a @ CHR '';'' # t) = Some (strip t))
   \<and> (CHR '';'' \<notin> set a \<and> t \<noteq> [] \<and> newline \<notin> set t
      \<longrightarrow> timestamp_text (a @ CHR '';'' # t) = Some (strip t))
   \<and> (CHR '';'' \<notin> set header \<longrightarrow> timestamp_text header = None)
   \<and> (timestamp_text header = None \<longrightarrow>
        time (parse_received_header L header n) = []
        \<and> time_dt (parse_received_header L header n) = None)
   \<and> (\<forall>ts. timestamp_text header = Some ts \<and> parsedate_to_datetime L ts = None \<longrightarrow>
        time (parse_received_header L header n) = ts
        \<and> time_dt (parse_received_header L header n) = None)
   \<and> (\<forall>ts d. timestamp_text header = Some ts \<and> parsedate_to_datetime L ts = Some d \<longrightarrow>
        time_dt (parse_received_header L header n) = Some d)"
proof (intro conjI allI impI)
  assume "one_line_rest t
      \<and> (\<forall>i < length a. a ! i = CHR '';'' \<longrightarrow> \<not> one_line_rest (drop (Suc i) (a @ CHR '';'' # t)))"
  then show "timestamp_text (a @ CHR '';'' # t) = Some (strip t)"
    using search_time_first_admissible [of t a] by (auto simp: timestamp_text_def)
next
  assume h: "CHR '';'' \<notin> set a \<and> t \<noteq> [] \<and> newline \<notin> set t"
  then have "one_line_rest t"
    by (simp add: one_line_rest_no_newline)
  moreover from h have "\<forall>i < length a. a ! i \<noteq> CHR '';''"
    by (metis nth_mem)
  ultimately show "timestamp_text (a @ CHR '';'' # t) = Some (strip t)"
    using search_time_first_admissible [of t a] by (auto simp: timestamp_text_def)
next
  assume "CHR '';'' \<notin> set header"
  then show "timestamp_text header = None"
    by (simp add: timestamp_text_def search_time_no_semicolon)
next
  assume "timestamp_text header = None"
  then show "time (parse_received_header L header n) = []"
    and "time_dt (parse_received_header L header n) = None"
    by (simp_all add: time_of_parsed_header time_dt_of_parsed_header)
next
  fix ts
  assume "timestamp_text header = Some ts \<and> parsedate_to_datetime L ts = None"
  then show "time (parse_received_header L header n) = ts"
    and "time_dt (parse_received_header L header n) = None"
    by (simp_all add: time_of_parsed_header time_dt_of_parsed_header)
next
  fix ts d
  assume "timestamp_text header = Some ts \<and> parsedate_to_datetime L ts = Some d"
  then show "time_dt (parse_received_header L header n) = Some d"
    by (simp add: time_dt_of_parsed_header)
qed

theorem timestamp_follows_first_admissible_semicolon_witness:
  "timestamp_text sample_two_semicolons = Some ''x; Mon, 01 Jan 2024 10:00:00 +0000''
   \<and> time (parse_received_header sample_lib sample_two_semicolons 1)
       = ''x; Mon, 01 Jan 2024 10:00:00 +0000''
   \<and> time_dt (parse_received_header sample_lib sample_two_semicolons 1) = None"
proof -
  let ?a = "''id A1''" and ?t = "'' x; Mon, 01 Jan 2024 10:00:00 +0000''"
  note th = timestamp_follows_first_admissible_semicolon
    [of ?t ?a sample_two_semicolons sample_lib 1]
  have s: "sample_two_semicolons = ?a @ CHR '';'' # ?t"
    by (simp add: sample_two_semicolons_def)
  have "CHR '';'' \<notin> set ?a \<and> ?t \<noteq> [] \<and> newline \<notin> set ?t"
    by (simp add: newline_def)
  with th have "timestamp_text (?a @ CHR '';'' # ?t) = Some (strip ?t)"
    by blast
  moreover have "strip ?t = ''x; Mon, 01 Jan 2024 10:00:00 +0000''"
    by (simp add: strip_def is_space_def)
  ultimately have ts: "timestamp_text sample_two_semicolons
      = Some ''x; Mon, 01 Jan 2024 10:00:00 +0000''"
    by (simp only: s)
  have "parsedate_to_datetime sample_lib ''x; Mon, 01 Jan 2024 10:00:00 +0000'' = None"
    by (simp add: sample_lib_def sample_parsedate_def)
  with th ts show ?thesis
    by blast
qed

text \<open>
  C5 as stated fails: in a header with two semicolons the timestamp text starts behind
  the first one.  It does not parse, so the hop keeps that raw text and has no parsed
  timestamp, although the text following the last semicolon is a date that parses.
\<close>

theorem timestamp_not_after_last_semicolon:
  "time (parse_received_header sample_lib sample_two_semicolons 1)
     = ''x; Mon, 01 Jan 2024 10:00:00 +0000''
   \<and> time_dt (parse_received_header sample_lib sample_two_semicolons 1) = None
   \<and> strip (split_last (CHR '';'') sample_two_semicolons) = ''Mon, 01 Jan 2024 10:00:00 +0000''
   \<and> map_option wall (parsedate_to_datetime sample_lib
         (strip (split_last (CHR '';'') sample_two_semicolons))) = Some 36000"
proof (intro conjI)
  show "time (parse_received_header sample_lib sample_two_semicolons 1)
     = ''x; Mon, 01 Jan 2024 10:00:00 +0000''"
    by code_simp
  show "time_dt (parse_received_header sample_lib sample_two_semicolons 1) = None"
    by code_simp
  show s: "strip (split_last (CHR '';'') sample_two_semicolons) = ''Mon, 01 Jan 2024 10:00:00 +0000''"
    by code_simp
  show "map_option wall (parsedate_to_datetime sample_lib
         (strip (split_last (CHR '';'') sample_two_semicolons))) = Some 36000"
    unfolding s by (simp add: sample_lib_def sample_parsedate_def)
qed

section \<open>The latency header\<close>

subsection \<open>Occurrences of the patterns\<close>

lemma re_search_None:
  assumes "\<And>t. set t \<subseteq> set s \<Longrightarrow> m t = None"
  shows "re_search m s = None"
  using assms
proof (induction s)
  case Nil
  then show ?case by simp
next
  case (Cons c s)
  have "m (c # s) = None"
    by (rule Cons.prems) simp
  moreover have "re_search m s = None"
    by (rule Cons.IH, rule Cons.prems) auto
  ultimately show ?case by simp
qed

lemma re_search_at_start: "m (c # t) = Some g \<Longrightarrow> re_search m (c # t) = Some g"
  by simp

lemma match_hms_tail_colon: "match_hms_tail t = Some x \<Longrightarrow> CHR '':'' \<in> set t"
  by (auto simp: match_hms_tail_def split: list.splits if_splits)

lemma match_hms_colon: "match_hms t = Some x \<Longrightarrow> CHR '':'' \<in> set t"
  by (auto simp: match_hms_def split: list.splits if_splits option.splits
      dest: match_hms_tail_colon)

lemma match_hms_digit: "match_hms t = Some x \<Longrightarrow> \<exists>c \<in> set t. is_digit c"
  by (auto simp: match_hms_def split: list.splits if_splits)

lemma match_decimal_dot: "match_decimal t = Some x \<Longrightarrow> CHR ''.'' \<in> set t"
proof -
  assume "match_decimal t = Some x"
  then obtain f r where "dropWhile is_digit t = CHR ''.'' # f # r"
    by (auto simp: match_decimal_def Let_def split: list.splits if_splits)
  then have "CHR ''.'' \<in> set (dropWhile is_digit t)"
    by simp
  then show ?thesis by (rule set_dropWhileD)
qed

lemma match_decimal_digit: "match_decimal t = Some x \<Longrightarrow> \<exists>c \<in> set t. is_digit c"
proof -
  assume "match_decimal t = Some x"
  then have "takeWhile is_digit t \<noteq> []"
    by (auto simp: match_decimal_def Let_def split: list.splits if_splits)
  then obtain c where "c \<in> set (takeWhile is_digit t)"
    by (cases "takeWhile is_digit t") auto
  then show ?thesis by (auto dest: set_takeWhileD)
qed

lemma match_integer_digit: "match_integer t = Some x \<Longrightarrow> \<exists>c \<in> set t. is_digit c"
proof -
  assume "match_integer t = Some x"
  then have "takeWhile is_digit t \<noteq> []"
    by (auto simp: match_integer_def Let_def split: if_splits)
  then obtain c where "c \<in> set (takeWhile is_digit t)"
    by (cases "takeWhile is_digit t") auto
  then show ?thesis by (auto dest: set_takeWhileD)
qed

lemma search_hms_no_colon: "CHR '':'' \<notin> set s \<Longrightarrow> re_search match_hms s = None"
proof (rule re_search_None)
  fix t assume "CHR '':'' \<notin> set s" and "set t \<subseteq> set s"
  then have "CHR '':'' \<notin> set t" by auto
  then show "match_hms t = None"
    using match_hms_colon by (cases "match_hms t") auto
qed

lemma search_decimal_no_dot: "CHR ''.'' \<notin> set s \<Longrightarrow> re_search match_decimal s = None"
proof (rule re_search_None)
  fix t assume "CHR ''.'' \<notin> set s" and "set t \<subseteq> set s"
  then have "CHR ''.'' \<notin> set t" by auto
  then show "match_decimal t = None"
    using match_decimal_dot by (cases "match_decimal t") auto
qed

lemma no_digit_no_match:
  assumes "\<forall>c \<in> set s. \<not> is_digit c"
  shows "re_search match_hms s = None" and "re_search match_decimal s = None"
    and "re_search match_integer s = None"
proof -
  have nd: "\<forall>c \<in> set t. \<not> is_digit c" if "set t \<subseteq> set s" for t
    using assms that by auto
  show "re_search match_hms s = None"
    by (rule re_search_None) (use nd match_hms_digit in \<open>metis not_Some_eq\<close>)
  show "re_search match_decimal s = None"
    by (rule re_search_None) (use nd match_decimal_digit in \<open>metis not_Some_eq\<close>)
  show "re_search match_integer s = None"
    by (rule re_search_None) (use nd match_integer_digit in \<open>metis not_Some_eq\<close>)
qed

lemma digits_no_colon: "list_all is_digit ds \<Longrightarrow> CHR '':'' \<notin> set ds"
  by (auto simp: list_all_iff is_digit_def)

lemma digits_no_dot: "list_all is_digit ds \<Longrightarrow> CHR ''.'' \<notin> set ds"
  by (auto simp: list_all_iff is_digit_def)

lemma takeWhile_digits: "list_all is_digit ds \<Longrightarrow> takeWhile is_digit ds = ds"
  by (simp add: list_all_iff)

lemma takeWhile_digits_then:
  "list_all is_digit ds \<Longrightarrow> \<not> is_digit c \<Longrightarrow> takeWhile is_digit (ds @ c # r) = ds"
  by (simp add: list_all_iff takeWhile_append2)

lemma dropWhile_digits_then:
  "list_all is_digit ds \<Longrightarrow> \<not> is_digit c \<Longrightarrow> dropWhile is_digit (ds @ c # r) = c # r"
  by (simp add: list_all_iff dropWhile_append2)

lemma not_digit_dot: "\<not> is_digit (CHR ''.'')" and not_digit_colon: "\<not> is_digit (CHR '':'')"
  by (simp_all add: is_digit_def)

lemma search_integer_digits:
  assumes "ds \<noteq> []" and "list_all is_digit ds"
  shows "re_search match_integer ds = Some ds"
proof -
  have "match_integer ds = Some ds"
    using assms by (simp add: match_integer_def takeWhile_digits)
  with assms(1) show ?thesis by (cases ds) simp_all
qed

lemma search_decimal_digits:
  assumes "a \<noteq> []" and "list_all is_digit a" and "b \<noteq> []" and "list_all is_digit b"
  shows "re_search match_decimal (a @ CHR ''.'' # b) = Some (a, b)"
proof -
  obtain f r where b: "b = f # r" using assms(3) by (cases b) auto
  with assms(4) have f: "is_digit f" by simp
  have "match_decimal (a @ CHR ''.'' # b) = Some (a, takeWhile is_digit b)"
    using assms(1) f
    by (simp add: match_decimal_def takeWhile_digits_then [OF assms(2) not_digit_dot]
        dropWhile_digits_then [OF assms(2) not_digit_dot] b)
  then have "match_decimal (a @ CHR ''.'' # b) = Some (a, b)"
    by (simp add: takeWhile_digits [OF assms(4)])
  with assms(1) show ?thesis by (cases a) simp_all
qed

lemma match_fraction_none: "match_fraction [] = ''0''"
  by (simp add: match_fraction_def)

lemma match_fraction_digits:
  assumes "f \<noteq> []" and "list_all is_digit f"
  shows "match_fraction (CHR ''.'' # f) = f"
proof -
  obtain c r where f: "f = c # r" using assms(1) by (cases f) auto
  with assms(2) have "is_digit c" by simp
  then show ?thesis
    using takeWhile_digits [OF assms(2)] by (simp add: match_fraction_def f)
qed

lemma search_hms_at_start:
  assumes "length h = 1 \<or> length h = 2" and "list_all is_digit h"
    and "length m = 2" and "list_all is_digit m"
    and "length s = 2" and "list_all is_digit s"
  shows "re_search match_hms (h @ CHR '':'' # m @ CHR '':'' # s @ rest)
       = Some (h, m, s, match_fraction rest)"
proof -
  from assms(3,4) obtain m1 m2 where m: "m = [m1, m2]" "is_digit m1" "is_digit m2"
    by (cases m; cases "tl m") auto
  from assms(5,6) obtain s1 s2 where s: "s = [s1, s2]" "is_digit s1" "is_digit s2"
    by (cases s; cases "tl s") auto
  have tail: "match_hms_tail (CHR '':'' # m @ CHR '':'' # s @ rest)
      = Some (m, s, match_fraction rest)"
    by (simp add: match_hms_tail_def m s)
  from assms(1) show ?thesis
  proof
    assume "length h = 1"
    with assms(2) obtain h1 where h: "h = [h1]" "is_digit h1"
      by (cases h) auto
    have "match_hms (h @ CHR '':'' # m @ CHR '':'' # s @ rest) = Some (h, m, s, match_fraction rest)"
      using tail by (simp add: match_hms_def h not_digit_colon)
    then show ?thesis by (simp add: h)
  next
    assume "length h = 2"
    with assms(2) obtain h1 h2 where h: "h = [h1, h2]" "is_digit h1" "is_digit h2"
      by (cases h; cases "tl h") auto
    have "match_hms (h @ CHR '':'' # m @ CHR '':'' # s @ rest) = Some (h, m, s, match_fraction rest)"
      using tail by (simp add: match_hms_def h)
    then show ?thesis by (simp add: h)
  qed
qed

subsection \<open>Rounding to the nearest float\<close>

lemma bit_length_nonneg: "0 \<le> bit_length n"
proof (induction n rule: bit_length.induct)
  case (1 n)
  then show ?case
    by (subst bit_length.simps) auto
qed

lemma bit_length_bounds:
  "0 < n \<Longrightarrow> 2 ^ nat (bit_length n - 1) \<le> n \<and> n < 2 ^ nat (bit_length n)"
proof (induction n rule: bit_length.induct)
  case (1 n)
  have bl: "bit_length n = 1 + bit_length (n div 2)"
    using "1.prems" by (subst bit_length.simps) simp
  show ?case
  proof (cases "n div 2 = 0")
    case True
    with "1.prems" have "n = 1" by presburger
    then show ?thesis
      by (simp add: bit_length.simps)
  next
    case False
    with "1.prems" have pos: "0 < n div 2" by presburger
    let ?b = "bit_length (n div 2)"
    from "1.IH" pos "1.prems"
    have ih: "2 ^ nat (?b - 1) \<le> n div 2" "n div 2 < 2 ^ nat ?b"
      by auto
    have bpos: "0 < ?b"
    proof (rule ccontr)
      assume "\<not> 0 < ?b"
      with bit_length_nonneg [of "n div 2"] have "?b = 0" by simp
      with ih(2) pos show False by simp
    qed
    then have e: "nat ?b = Suc (nat (?b - 1))"
      by simp
    have "(2::int) ^ nat ?b = 2 * 2 ^ nat (?b - 1)"
      by (subst e) simp
    also have "\<dots> \<le> 2 * (n div 2)"
      using ih(1) by simp
    also have "\<dots> \<le> n"
      by presburger
    finally have lo: "2 ^ nat ?b \<le> n" .
    have "n \<le> 2 * (n div 2) + 1"
      by presburger
    also have "\<dots> < 2 * 2 ^ nat ?b"
      using ih(2) by simp
    finally have hi: "n < 2 ^ Suc (nat ?b)"
      by simp
    have "nat (bit_length n) = Suc (nat ?b)"
      using bit_length_nonneg [of "n div 2"] by (simp add: bl)
    moreover have "nat (bit_length n - 1) = nat ?b"
      by (simp add: bl)
    ultimately show ?thesis
      using lo hi by simp
  qed
qed

lemma bit_length_pos: "0 < n \<Longrightarrow> 0 < bit_length n"
  using bit_length_nonneg [of "n div 2"] by (subst bit_length.simps) simp

lemma floor_log2_bounds:
  assumes "0 < x"
  shows "2 powi floor_log2 x \<le> x" and "x < 2 powi (floor_log2 x + 1)"
proof -
  have "2 powi floor_log2 x \<le> x \<and> x < 2 powi (floor_log2 x + 1)"
  proof (cases "1 \<le> x")
    case True
    let ?n = "\<lfloor>x\<rfloor>"
    let ?b = "bit_length ?n"
    from True have n: "0 < ?n" by simp
    note bb = bit_length_bounds [OF n]
    have bpos: "0 < ?b" by (rule bit_length_pos [OF n])
    have e: "floor_log2 x = ?b - 1"
      using True by (simp add: floor_log2_def)
    have "(2::rat) powi (?b - 1) = of_int (2 ^ nat (?b - 1))"
      using bpos by (simp add: power_int_nonneg_exp)
    also have "\<dots> \<le> of_int ?n"
      using bb by (simp only: of_int_le_iff)
    also have "\<dots> \<le> x"
      by simp
    finally have lo: "2 powi (?b - 1) \<le> x" .
    from bb have "?n + 1 \<le> 2 ^ nat ?b"
      by simp
    then have "(of_int (?n + 1) :: rat) \<le> of_int (2 ^ nat ?b)"
      by (simp only: of_int_le_iff)
    moreover have "x < of_int (?n + 1)"
      by linarith
    ultimately have "x < of_int (2 ^ nat ?b)"
      by (rule less_le_trans [rotated])
    also have "\<dots> = 2 powi ?b"
      using bpos by (simp add: power_int_nonneg_exp)
    finally have hi: "x < 2 powi ?b" .
    from lo hi show ?thesis
      by (simp add: e)
  next
    case False
    let ?y = "1 / x"
    let ?n = "\<lceil>?y\<rceil> - 1"
    let ?b = "bit_length ?n"
    from False assms have y: "1 < ?y" by simp
    then have n: "0 < ?n" by linarith
    note bb = bit_length_bounds [OF n]
    have bpos: "0 < ?b" by (rule bit_length_pos [OF n])
    have e: "floor_log2 x = - ?b"
      using False by (simp add: floor_log2_def)
    have "?y \<le> of_int (?n + 1)"
      by simp
    also have "\<dots> \<le> of_int (2 ^ nat ?b)"
      using bb by (simp only: of_int_le_iff) simp
    also have "\<dots> = 2 powi ?b"
      using bpos by (simp add: power_int_nonneg_exp)
    finally have "1 / x \<le> 2 powi ?b" .
    then have "1 \<le> 2 powi ?b * x"
      using assms by (simp add: field_simps)
    then have lo: "2 powi (- ?b) \<le> x"
      by (simp add: power_int_minus field_simps)
    have "(2::rat) powi (?b - 1) = of_int (2 ^ nat (?b - 1))"
      using bpos by (simp add: power_int_nonneg_exp)
    also have "\<dots> \<le> of_int ?n"
      using bb by (simp only: of_int_le_iff)
    also have "\<dots> < ?y"
      by linarith
    finally have "2 powi (?b - 1) < 1 / x" .
    moreover have p: "(0::rat) < 2 powi (?b - 1)"
      by (rule zero_less_power_int) simp
    ultimately have "x < inverse (2 powi (?b - 1))"
      using assms by (simp add: field_simps)
    moreover have "(2::rat) powi (- ?b + 1) = inverse (2 powi (?b - 1))"
      using power_int_minus [of "2::rat" "?b - 1"] by simp
    ultimately have hi: "x < 2 powi (- ?b + 1)"
      by simp
    from lo hi show ?thesis
      by (simp add: e)
  qed
  then show "2 powi floor_log2 x \<le> x" and "x < 2 powi (floor_log2 x + 1)"
    by simp_all
qed

lemma floor_log2_unique:
  assumes "2 powi e \<le> x" and "x < 2 powi (e + 1)"
  shows "floor_log2 x = e"
proof -
  have "(0::rat) < 2 powi e"
    by (rule zero_less_power_int) simp
  from this assms(1) have pos: "0 < x"
    by (rule less_le_trans)
  note b = floor_log2_bounds [OF pos]
  let ?f = "floor_log2 x"
  have "\<not> ?f < e"
  proof
    assume "?f < e"
    then have "(2::rat) powi (?f + 1) \<le> 2 powi e"
      by (intro power_int_increasing) simp_all
    with b(2) assms(1) show False by simp
  qed
  moreover have "\<not> e < ?f"
  proof
    assume "e < ?f"
    then have "(2::rat) powi (e + 1) \<le> 2 powi ?f"
      by (intro power_int_increasing) simp_all
    with b(1) assms(2) show False by simp
  qed
  ultimately show ?thesis by simp
qed

lemma round_half_even_of_int: "round_half_even (of_int z) = z"
  by (simp add: round_half_even_def)

lemma round_half_even_ge: "of_int t \<le> y \<Longrightarrow> t \<le> round_half_even y"
proof -
  assume "of_int t \<le> y"
  then have "t \<le> \<lfloor>y\<rfloor>"
    by (simp add: le_floor_iff)
  then show ?thesis
    by (simp add: round_half_even_def Let_def)
qed

lemma round_half_even_le_half: "y < of_int t + 1 / 2 \<Longrightarrow> round_half_even y \<le> t"
proof -
  assume a: "y < of_int t + 1 / 2"
  then have "y < of_int (t + 1)"
    by simp
  then have "\<lfloor>y\<rfloor> < t + 1"
    by (simp only: floor_less_iff)
  then have le: "\<lfloor>y\<rfloor> \<le> t"
    by simp
  show ?thesis
  proof (cases "\<lfloor>y\<rfloor> = t")
    case True
    with a have "y - of_int \<lfloor>y\<rfloor> < 1 / 2"
      by simp
    then show ?thesis
      using True by (simp add: round_half_even_def Let_def)
  next
    case False
    with le have "\<lfloor>y\<rfloor> + 1 \<le> t"
      by simp
    then show ?thesis
      by (simp add: round_half_even_def Let_def)
  qed
qed

lemma round_half_even_le: "y \<le> of_int t \<Longrightarrow> round_half_even y \<le> t"
  by (rule round_half_even_le_half) simp

lemma round_double_eq:
  assumes "2 powi e \<le> x" and "x < 2 powi (e + 1)"
  shows "round_double x
       = of_int (round_half_even (x / 2 powi max (e - 52) (- 1074))) * 2 powi max (e - 52) (- 1074)"
proof -
  have "(0::rat) < 2 powi e"
    by (rule zero_less_power_int) simp
  from this assms(1) have pos: "0 < x"
    by (rule less_le_trans)
  have "floor_log2 x = e"
    using assms by (rule floor_log2_unique)
  with pos show ?thesis
    by (simp add: round_double_def Let_def)
qed

lemma round_double_pos_eq:
  assumes "0 < x"
  shows "round_double x
       = of_int (round_half_even (x / 2 powi max (floor_log2 x - 52) (- 1074)))
         * 2 powi max (floor_log2 x - 52) (- 1074)"
  using assms by (simp add: round_double_def Let_def)

lemma round_double_nonneg: "0 \<le> x \<Longrightarrow> 0 \<le> round_double x"
proof (cases "x = 0")
  case True
  then show ?thesis by (simp add: round_double_def)
next
  case False
  assume "0 \<le> x"
  with False have pos: "0 < x" by simp
  let ?u = "(2::rat) powi max (floor_log2 x - 52) (- 1074)"
  have u: "0 < ?u"
    by (rule zero_less_power_int) simp
  with pos have "of_int 0 \<le> x / ?u"
    by simp
  then have "0 \<le> round_half_even (x / ?u)"
    by (rule round_half_even_ge)
  with u show ?thesis
    by (simp add: round_double_pos_eq [OF pos])
qed

lemma round_double_of_int:
  assumes "0 \<le> n" and "n < 2 ^ 53"
  shows "round_double (of_int n) = of_int n"
proof (cases "n = 0")
  case True
  then show ?thesis by (simp add: round_double_def)
next
  case False
  with assms(1) have n: "0 < n" by simp
  let ?x = "of_int n :: rat"
  let ?e = "floor_log2 ?x"
  have pos: "0 < ?x" using n by simp
  note b = floor_log2_bounds [OF pos]
  have e0: "0 \<le> ?e"
  proof (rule ccontr)
    assume "\<not> 0 \<le> ?e"
    then have "?e + 1 \<le> 0" by simp
    then have "(2::rat) powi (?e + 1) \<le> 2 powi 0"
      by (intro power_int_increasing) simp_all
    with b(2) have "?x < 1" by simp
    with n show False by simp
  qed
  have e52: "?e \<le> 52"
  proof (rule ccontr)
    assume "\<not> ?e \<le> 52"
    then have "53 \<le> ?e" by simp
    then have "(2::rat) powi 53 \<le> 2 powi ?e"
      by (intro power_int_increasing) simp_all
    with b(1) have "(2::rat) ^ 53 \<le> ?x" by simp
    also have "?x < of_int (2 ^ 53)"
      using assms(2) by (simp only: of_int_less_iff)
    finally show False by simp
  qed
  let ?k = "max (?e - 52) (- 1074)"
  have k: "?k = - (52 - ?e)"
    using e0 by simp
  have d: "0 \<le> 52 - ?e"
    using e52 by simp
  have u: "(2::rat) powi ?k = inverse (of_int (2 ^ nat (52 - ?e)))"
    unfolding k power_int_minus using d by (simp add: power_int_nonneg_exp)
  have "?x / 2 powi ?k = of_int (n * 2 ^ nat (52 - ?e))"
    unfolding u by (simp add: field_simps)
  then have "round_half_even (?x / 2 powi ?k) = n * 2 ^ nat (52 - ?e)"
    by (simp only: round_half_even_of_int)
  then have "round_double ?x = of_int (n * 2 ^ nat (52 - ?e)) * 2 powi ?k"
    by (simp only: round_double_pos_eq [OF pos])
  also have "\<dots> = ?x"
    unfolding u by simp
  finally show ?thesis .
qed

lemma round_double_le_power:
  assumes "0 < x"
  shows "round_double x \<le> 2 powi (floor_log2 x + 1)"
proof -
  let ?e = "floor_log2 x"
  let ?k = "max (?e - 52) (- 1074)"
  let ?u = "(2::rat) powi ?k"
  let ?y = "x / ?u"
  note b = floor_log2_bounds [OF assms]
  have u: "0 < ?u"
    by (rule zero_less_power_int) simp
  have split: "(2::rat) powi (?e + 1) = 2 powi (?e + 1 - ?k) * ?u"
    using power_int_add [of "2::rat" "?e + 1 - ?k" ?k] by simp
  from b(2) have "x < 2 powi (?e + 1 - ?k) * ?u"
    by (simp only: split [symmetric])
  then have y: "?y < 2 powi (?e + 1 - ?k)"
    using u by (simp only: pos_divide_less_eq)
  show ?thesis
  proof (cases "0 \<le> ?e + 1 - ?k")
    case True
    then have "(2::rat) powi (?e + 1 - ?k) = of_int (2 ^ nat (?e + 1 - ?k))"
      by (simp add: power_int_nonneg_exp)
    with y have "?y \<le> of_int (2 ^ nat (?e + 1 - ?k))"
      by simp
    then have "round_half_even ?y \<le> 2 ^ nat (?e + 1 - ?k)"
      by (rule round_half_even_le)
    then have "(of_int (round_half_even ?y) :: rat) \<le> of_int (2 ^ nat (?e + 1 - ?k))"
      by (simp only: of_int_le_iff)
    also have "\<dots> = 2 powi (?e + 1 - ?k)"
      using True by (simp add: power_int_nonneg_exp)
    finally have "of_int (round_half_even ?y) * ?u \<le> 2 powi (?e + 1 - ?k) * ?u"
      using u by simp
    then show ?thesis
      by (simp only: round_double_pos_eq [OF assms] split)
  next
    case False
    then have "?e + 1 - ?k \<le> - 1" by simp
    then have "(2::rat) powi (?e + 1 - ?k) \<le> 2 powi (- 1)"
      by (intro power_int_increasing) simp_all
    also have "(2::rat) powi (- 1) = of_int 0 + 1 / 2"
      by (simp add: power_int_minus)
    finally have "?y < of_int 0 + 1 / 2"
      using y by (rule less_le_trans [rotated])
    then have "round_half_even ?y \<le> 0"
      by (rule round_half_even_le_half)
    then have "(of_int (round_half_even ?y) :: rat) \<le> 0"
      by simp
    with u have "of_int (round_half_even ?y) * ?u \<le> 0"
      by (simp add: mult_le_0_iff)
    also have "\<dots> \<le> 2 powi (?e + 1)"
      by (rule zero_le_power_int) simp
    finally show ?thesis
      by (simp only: round_double_pos_eq [OF assms])
  qed
qed

lemma round_double_le_power_of:
  assumes "0 \<le> x" and "x < 2 powi j"
  shows "round_double x \<le> 2 powi j"
proof (cases "x = 0")
  case True
  then show ?thesis
    by (simp add: round_double_def zero_le_power_int)
next
  case False
  with assms(1) have pos: "0 < x" by simp
  note b = floor_log2_bounds [OF pos]
  have "floor_log2 x < j"
  proof (rule ccontr)
    assume "\<not> floor_log2 x < j"
    then have "(2::rat) powi j \<le> 2 powi floor_log2 x"
      by (intro power_int_increasing) simp_all
    with b(1) assms(2) show False by simp
  qed
  then have "(2::rat) powi (floor_log2 x + 1) \<le> 2 powi j"
    by (intro power_int_increasing) simp_all
  with round_double_le_power [OF pos] show ?thesis
    by simp
qed

lemma round_double_le_one: "0 \<le> x \<Longrightarrow> x < 1 \<Longrightarrow> round_double x \<le> 1"
  using round_double_le_power_of [of x 0] by simp

lemma round_double_ge_power:
  assumes "0 < x" and "- 1022 \<le> floor_log2 x"
  shows "2 powi floor_log2 x \<le> round_double x"
proof -
  let ?e = "floor_log2 x"
  let ?u = "(2::rat) powi (?e - 52)"
  have k: "max (?e - 52) (- 1074) = ?e - 52"
    using assms(2) by simp
  note b = floor_log2_bounds [OF assms(1)]
  have u: "0 < ?u"
    by (rule zero_less_power_int) simp
  have split: "(2::rat) powi ?e = 2 powi 52 * ?u"
    using power_int_add [of "2::rat" 52 "?e - 52"] by simp
  from b(1) have "2 powi 52 * ?u \<le> x"
    by (simp only: split [symmetric])
  then have "2 powi 52 \<le> x / ?u"
    using u by (simp only: pos_le_divide_eq)
  then have "of_int (2 ^ 52) \<le> x / ?u"
    by simp
  then have "2 ^ 52 \<le> round_half_even (x / ?u)"
    by (rule round_half_even_ge)
  then have "(of_int (2 ^ 52) :: rat) \<le> of_int (round_half_even (x / ?u))"
    by (simp only: of_int_le_iff)
  then have "2 powi 52 * ?u \<le> of_int (round_half_even (x / ?u)) * ?u"
    using u by simp
  then show ?thesis
    by (simp only: round_double_pos_eq [OF assms(1)] k split)
qed

lemma floor_log2_less:
  assumes "0 < x" and "x < 2 powi j"
  shows "floor_log2 x < j"
proof (rule ccontr)
  assume "\<not> floor_log2 x < j"
  then have "(2::rat) powi j \<le> 2 powi floor_log2 x"
    by (intro power_int_increasing) simp_all
  with floor_log2_bounds(1) [OF assms(1)] assms(2) show False by simp
qed

lemma floor_log2_ge:
  assumes "0 < x" and "2 powi j \<le> x"
  shows "j \<le> floor_log2 x"
proof (rule ccontr)
  assume "\<not> j \<le> floor_log2 x"
  then have "(2::rat) powi (floor_log2 x + 1) \<le> 2 powi j"
    by (intro power_int_increasing) simp_all
  with floor_log2_bounds(2) [OF assms(1)] assms(2) show False by simp
qed

lemma round_double_overflow:
  assumes "2 powi 1024 \<le> x"
  shows "2 powi 1024 \<le> round_double x"
proof -
  have "(0::rat) < 2 powi 1024"
    by (rule zero_less_power_int) simp
  from this assms have pos: "0 < x"
    by (rule less_le_trans)
  have e: "1024 \<le> floor_log2 x"
    using pos assms by (rule floor_log2_ge)
  then have "(2::rat) powi 1024 \<le> 2 powi floor_log2 x"
    by (intro power_int_increasing) simp_all
  also have "\<dots> \<le> round_double x"
    using pos e by (intro round_double_ge_power) simp_all
  finally show ?thesis .
qed

lemma round_double_zero: "round_double 0 = 0"
  by (simp add: round_double_def)

lemma round_double_top:
  assumes "0 < x" and "floor_log2 x = 1023"
  shows "round_double x = of_int (round_half_even (x / 2 powi 971)) * 2 powi 971"
  using assms by (simp add: round_double_def Let_def)

lemma round_double_finite:
  assumes "0 \<le> x" and "round_double x < 2 powi 1024"
  shows "round_double x \<le> of_int (2 ^ 53 - 1) * 2 powi 971"
proof (cases "x = 0")
  case True
  have "(0::rat) \<le> of_int (2 ^ 53 - 1) * 2 powi 971"
    by (intro mult_nonneg_nonneg zero_le_power_int) simp_all
  with True show ?thesis
    by (simp only: round_double_zero)
next
  case False
  with assms(1) have pos: "0 < x" by simp
  let ?e = "floor_log2 x"
  have u: "(0::rat) < 2 powi 971"
    by (rule zero_less_power_int) simp
  have m: "(2::rat) powi 1023 \<le> of_int (2 ^ 53 - 1) * 2 powi 971"
  proof -
    have "(2::rat) powi 1023 = of_int (2 ^ 52) * 2 powi 971"
      using power_int_add [of "2::rat" 52 971] by simp
    also have "\<dots> \<le> of_int (2 ^ 53 - 1) * 2 powi 971"
      using u by (intro mult_right_mono) simp_all
    finally show ?thesis .
  qed
  have e: "?e \<le> 1023"
  proof (rule ccontr)
    assume "\<not> ?e \<le> 1023"
    then have e: "1024 \<le> ?e" by simp
    then have "(2::rat) powi 1024 \<le> 2 powi ?e"
      by (intro power_int_increasing) simp_all
    also have "\<dots> \<le> round_double x"
      using pos e by (intro round_double_ge_power) simp_all
    finally show False
      using assms(2) by simp
  qed
  show ?thesis
  proof (cases "?e = 1023")
    case True
    let ?r = "round_half_even (x / 2 powi 971)"
    note eq = round_double_top [OF pos True]
    have "(2::rat) powi 1024 = of_int (2 ^ 53) * 2 powi 971"
      using power_int_add [of "2::rat" 53 971] by simp
    with assms(2) have "of_int ?r * 2 powi 971 < of_int (2 ^ 53) * (2::rat) powi 971"
      by (simp only: eq)
    then have "(of_int ?r :: rat) < of_int (2 ^ 53)"
      using u by (simp only: mult_less_cancel_right_pos)
    then have "?r < 2 ^ 53"
      by (simp only: of_int_less_iff)
    then have "?r \<le> 2 ^ 53 - 1"
      by simp
    then have "(of_int ?r :: rat) \<le> of_int (2 ^ 53 - 1)"
      by (simp only: of_int_le_iff)
    then have "of_int ?r * 2 powi 971 \<le> of_int (2 ^ 53 - 1) * (2::rat) powi 971"
      using u by (intro mult_right_mono) simp_all
    then show ?thesis
      by (simp only: eq)
  next
    case False
    with e have "?e + 1 \<le> 1023" by simp
    then have "(2::rat) powi (?e + 1) \<le> 2 powi 1023"
      by (intro power_int_increasing) simp_all
    with round_double_le_power [OF pos] m show ?thesis
      by simp
  qed
qed

lemma round_double_below_limit:
  assumes "0 \<le> x" and "x < of_int (2 ^ 53 - 1) * 2 powi 971 + 2 powi 970"
  shows "round_double x < 2 powi 1024"
proof (cases "x = 0")
  case True
  have "(0::rat) < 2 powi 1024"
    by (rule zero_less_power_int) simp
  with True show ?thesis
    by (simp only: round_double_zero)
next
  case False
  with assms(1) have pos: "0 < x" by simp
  let ?e = "floor_log2 x"
  have u: "(0::rat) < 2 powi 971"
    by (rule zero_less_power_int) simp
  have half: "(2::rat) powi 970 = (1 / 2) * 2 powi 971"
    using power_int_add [of "2::rat" "- 1" 971] by (simp add: power_int_minus)
  have top: "(2::rat) powi 1024 = of_int (2 ^ 53) * 2 powi 971"
    using power_int_add [of "2::rat" 53 971] by simp
  have "of_int (2 ^ 53 - 1) * 2 powi 971 + 2 powi 970 \<le> (2::rat) powi 1024"
    unfolding half top using u by simp
  with assms(2) have "x < 2 powi 1024"
    by simp
  with pos have e: "?e < 1024"
    by (rule floor_log2_less)
  show ?thesis
  proof (cases "?e = 1023")
    case True
    let ?r = "round_half_even (x / 2 powi 971)"
    note eq = round_double_top [OF pos True]
    from assms(2) have "x < (of_int (2 ^ 53 - 1) + 1 / 2) * 2 powi 971"
      unfolding half by (simp add: algebra_simps)
    then have "x / 2 powi 971 < of_int (2 ^ 53 - 1) + 1 / 2"
      using u by (simp only: pos_divide_less_eq)
    then have "?r \<le> 2 ^ 53 - 1"
      by (rule round_half_even_le_half)
    then have "?r < 2 ^ 53"
      by simp
    then have "(of_int ?r :: rat) < of_int (2 ^ 53)"
      by (simp only: of_int_less_iff)
    then have "of_int ?r * 2 powi 971 < of_int (2 ^ 53) * (2::rat) powi 971"
      using u by (simp only: mult_less_cancel_right_pos)
    then show ?thesis
      by (simp only: eq top)
  next
    case False
    with e have "?e + 1 \<le> 1023" by simp
    then have "(2::rat) powi (?e + 1) \<le> 2 powi 1023"
      by (intro power_int_increasing) simp_all
    also have "(2::rat) powi 1023 < 2 powi 1024"
      by (intro power_int_strict_increasing) simp_all
    finally show ?thesis
      using round_double_le_power [OF pos] by simp
  qed
qed

subsection \<open>The value of each pattern\<close>

lemma int_of_digits_snoc:
  "int_of_digits (ds @ [c]) = 10 * int_of_digits ds + (of_char c - 48)"
  by (simp add: int_of_digits_def)

lemma digit_value:
  assumes "is_digit c"
  shows "0 \<le> (of_char c :: int) - 48" and "(of_char c :: int) - 48 \<le> 9"
proof -
  have "(of_char c :: int) = int (of_char c)"
    by (simp add: of_nat_of_char)
  with assms show "0 \<le> (of_char c :: int) - 48" and "(of_char c :: int) - 48 \<le> 9"
    by (simp_all add: is_digit_def)
qed

lemma int_of_digits_bounds:
  "list_all is_digit ds \<Longrightarrow> 0 \<le> int_of_digits ds \<and> int_of_digits ds < 10 ^ length ds"
proof (induction ds rule: rev_induct)
  case Nil
  then show ?case by (simp add: int_of_digits_def)
next
  case (snoc c ds)
  then have ih: "0 \<le> int_of_digits ds" "int_of_digits ds + 1 \<le> 10 ^ length ds"
    and c: "is_digit c"
    by simp_all
  from ih(2) have "10 * int_of_digits ds + 10 \<le> 10 * 10 ^ length ds"
    by simp
  with ih(1) digit_value [OF c] show ?case
    by (simp add: int_of_digits_snoc)
qed

lemma py_int_digits:
  "ds \<noteq> [] \<Longrightarrow> list_all is_digit ds \<Longrightarrow> length ds \<le> 4300 \<Longrightarrow> py_int ds = Inr (int_of_digits ds)"
  by (simp add: py_int_def int_max_str_digits_def)

lemma py_int_long: "4300 < length ds \<Longrightarrow> py_int ds = Inl ValueError"
  by (simp add: py_int_def int_max_str_digits_def)

lemma py_int_Inr:
  assumes "py_int ds = Inr n"
  shows "n = int_of_digits ds" and "list_all is_digit ds" and "0 \<le> n" and "n < 10 ^ length ds"
proof -
  from assms show n: "n = int_of_digits ds" and d: "list_all is_digit ds"
    by (auto simp: py_int_def split: if_splits)
  from int_of_digits_bounds [OF d] n show "0 \<le> n" and "n < 10 ^ length ds"
    by simp_all
qed

lemma double_limit_power: "double_limit = 2 powi 1024"
  by (simp add: double_limit_def)

lemma float_of_int_nonneg:
  assumes "0 \<le> n"
  shows "float_of_int n
       = (if round_double (of_int n) < double_limit then Inr (round_double (of_int n))
          else Inl OverflowError)"
proof -
  have "0 \<le> round_double (of_int n)"
    using assms by (intro round_double_nonneg) simp
  then show ?thesis
    by (simp add: float_of_int_def Let_def not_less)
qed

lemma float_of_int_exact:
  assumes "0 \<le> n" and "n < 2 ^ 53"
  shows "float_of_int n = Inr (of_int n)"
proof -
  have "(of_int n :: rat) < of_int (2 ^ 53)"
    using assms(2) by (simp only: of_int_less_iff)
  also have "\<dots> = 2 powi 53"
    by simp
  also have "\<dots> \<le> 2 powi 1024"
    by (intro power_int_increasing) simp_all
  finally have "(of_int n :: rat) < double_limit"
    by (simp only: double_limit_power)
  then show ?thesis
    by (simp add: float_of_int_nonneg [OF assms(1)] round_double_of_int [OF assms])
qed

lemma float_of_int_overflow:
  assumes "double_limit \<le> of_int n"
  shows "float_of_int n = Inl OverflowError"
proof -
  from assms have "double_limit \<le> round_double (of_int n)"
    unfolding double_limit_power by (rule round_double_overflow)
  moreover have "(0::rat) < 2 powi 1024"
    by (rule zero_less_power_int) simp
  ultimately have "double_limit \<le> \<bar>round_double (of_int n)\<bar>"
    by (simp add: double_limit_power)
  then show ?thesis
    by (simp add: float_of_int_def Let_def)
qed

lemma int_true_divide_below_one:
  assumes "0 \<le> a" and "a < b"
  shows "int_true_divide a b = Inr (round_double (of_int a / of_int b))"
    and "0 \<le> round_double (of_int a / of_int b)"
    and "round_double (of_int a / of_int b) \<le> 1"
proof -
  let ?q = "of_int a / of_int b :: rat"
  from assms have b: "0 < b" by simp
  have q: "0 \<le> ?q" "?q < 1"
    using assms b by simp_all
  show lo: "0 \<le> round_double ?q"
    using q(1) by (rule round_double_nonneg)
  show hi: "round_double ?q \<le> 1"
    using q by (rule round_double_le_one)
  have "(1::rat) = 2 powi 0"
    by simp
  also have "\<dots> < 2 powi 1024"
    by (intro power_int_strict_increasing) simp_all
  finally have "round_double ?q < double_limit"
    using hi by (simp only: double_limit_power)
  with lo b show "int_true_divide a b = Inr (round_double ?q)"
    by (simp add: int_true_divide_def Let_def)
qed

lemma fractional_value_digits:
  assumes "f \<noteq> []" and "list_all is_digit f" and "length f \<le> 4300"
  shows "fractional_value f = Inr (round_double (of_int (int_of_digits f) / 10 ^ length f))"
proof -
  note b = int_of_digits_bounds [OF assms(2)]
  have "int_true_divide (int_of_digits f) (10 ^ length f)
      = Inr (round_double (of_int (int_of_digits f) / of_int (10 ^ length f)))"
    using b by (intro int_true_divide_below_one) simp_all
  then show ?thesis
    by (simp add: fractional_value_def py_int_digits [OF assms])
qed

lemma fractional_value_long: "4300 < length f \<Longrightarrow> fractional_value f = Inl ValueError"
  by (simp add: fractional_value_def py_int_long)

lemma fractional_value_range:
  assumes "fractional_value f = Inr v"
  shows "0 \<le> v" and "v \<le> 1"
proof -
  from assms obtain n where n: "py_int f = Inr n"
    and v: "int_true_divide n (10 ^ length f) = Inr v"
    by (auto simp: fractional_value_def split: sum.splits)
  note p = py_int_Inr [OF n]
  note d = int_true_divide_below_one [OF p(3) p(4)]
  from d(1) v have "v = round_double (of_int n / of_int (10 ^ length f))"
    by simp
  with d(2,3) show "0 \<le> v" and "v \<le> 1"
    by simp_all
qed

lemma max_double_below_limit: "of_int (2 ^ 53 - 1) * 2 powi 971 < (2::rat) powi 1024"
proof -
  have u: "(0::rat) < 2 powi 971"
    by (rule zero_less_power_int) simp
  have "(of_int (2 ^ 53 - 1) :: rat) < of_int (2 ^ 53)"
    by (simp only: of_int_less_iff)
  then have "of_int (2 ^ 53 - 1) * 2 powi 971 < of_int (2 ^ 53) * (2::rat) powi 971"
    using u by (simp only: mult_less_cancel_right_pos)
  also have "\<dots> = 2 powi 1024"
    using power_int_add [of "2::rat" 53 971] by simp
  finally show ?thesis .
qed

lemma float_of_int_range:
  assumes "0 \<le> n" and "float_of_int n = Inr a"
  shows "0 \<le> a" and "a \<le> of_int (2 ^ 53 - 1) * 2 powi 971"
proof -
  from assms have a: "a = round_double (of_int n)" and lt: "round_double (of_int n) < double_limit"
    by (auto simp: float_of_int_nonneg split: if_splits)
  have n: "(0::rat) \<le> of_int n"
    using assms(1) by simp
  show "0 \<le> a"
    unfolding a using n by (rule round_double_nonneg)
  show "a \<le> of_int (2 ^ 53 - 1) * 2 powi 971"
    unfolding a using n lt [unfolded double_limit_power] by (rule round_double_finite)
qed

lemma round_double_range:
  assumes "0 \<le> x" and "x \<le> of_int (2 ^ 53 - 1) * 2 powi 971 + 1"
  shows "0 \<le> round_double x" and "round_double x \<le> of_int (2 ^ 53 - 1) * 2 powi 971"
proof -
  have "(1::rat) = 2 powi 0"
    by simp
  also have "\<dots> < 2 powi 970"
    by (intro power_int_strict_increasing) simp_all
  finally have "x < of_int (2 ^ 53 - 1) * 2 powi 971 + 2 powi 970"
    using assms(2) by simp
  with assms(1) have "round_double x < 2 powi 1024"
    by (rule round_double_below_limit)
  with assms(1) show "round_double x \<le> of_int (2 ^ 53 - 1) * 2 powi 971"
    by (rule round_double_finite)
  show "0 \<le> round_double x"
    using assms(1) by (rule round_double_nonneg)
qed

lemma int_add_float_range:
  assumes "0 \<le> n" and "0 \<le> b" and "b \<le> 1" and "int_add_float n b = Inr v"
  shows "0 \<le> v \<and> v \<le> of_int (2 ^ 53 - 1) * 2 powi 971"
proof -
  from assms(4) obtain a where a: "float_of_int n = Inr a" and v: "v = round_double (a + b)"
    by (auto simp: int_add_float_def float_add_def split: sum.splits)
  note r = float_of_int_range [OF assms(1) a]
  have "0 \<le> a + b" and "a + b \<le> of_int (2 ^ 53 - 1) * 2 powi 971 + 1"
    using r assms(2,3) by simp_all
  then show ?thesis
    unfolding v by (intro conjI round_double_range)
qed

lemma float_true_divide_range:
  assumes "0 \<le> a" and "a \<le> of_int (2 ^ 53 - 1) * 2 powi 971"
    and "float_true_divide a 1000 = Inr v"
  shows "0 \<le> v \<and> v \<le> of_int (2 ^ 53 - 1) * 2 powi 971"
proof -
  from assms(3) have v: "v = round_double (a / 1000)"
    by (simp add: float_true_divide_def)
  have "a / 1000 \<le> a"
    using assms(1) by simp
  then have "0 \<le> a / 1000" and "a / 1000 \<le> of_int (2 ^ 53 - 1) * 2 powi 971 + 1"
    using assms(1,2) by simp_all
  then show ?thesis
    unfolding v by (intro conjI round_double_range)
qed

lemma hms_seconds_range:
  assumes "hms_seconds h m s f = Inr v"
  shows "0 \<le> v \<and> v \<le> of_int (2 ^ 53 - 1) * 2 powi 971"
proof -
  from assms obtain hours minutes seconds fv where
    p: "py_int h = Inr hours" "py_int m = Inr minutes" "py_int s = Inr seconds"
    and fv: "(if f \<noteq> [] then fractional_value f else Inr 0) = Inr fv"
    and v: "int_add_float (hours * 3600 + minutes * 60 + seconds) fv = Inr v"
    by (auto simp: hms_seconds_def split: sum.splits)
  have n: "0 \<le> hours * 3600 + minutes * 60 + seconds"
    using py_int_Inr(3) [OF p(1)] py_int_Inr(3) [OF p(2)] py_int_Inr(3) [OF p(3)] by simp
  have "0 \<le> fv \<and> fv \<le> 1"
  proof (cases "f = []")
    case True
    with fv show ?thesis by simp
  next
    case False
    with fv have "fractional_value f = Inr fv" by simp
    then show ?thesis
      using fractional_value_range by blast
  qed
  then show ?thesis
    using n v by (intro int_add_float_range [of _ fv]) simp_all
qed

lemma decimal_seconds_range:
  assumes "decimal_seconds s f = Inr v"
  shows "0 \<le> v \<and> v \<le> of_int (2 ^ 53 - 1) * 2 powi 971"
proof -
  from assms obtain seconds fv where
    p: "py_int s = Inr seconds" and fv: "fractional_value f = Inr fv"
    and v: "int_add_float seconds fv = Inr v"
    by (auto simp: decimal_seconds_def split: sum.splits)
  show ?thesis
    using py_int_Inr(3) [OF p] fractional_value_range [OF fv] v
    by (intro int_add_float_range [of _ fv]) simp_all
qed

lemma integer_seconds_range:
  assumes "integer_seconds ds = Inr v"
  shows "0 \<le> v \<and> v \<le> of_int (2 ^ 53 - 1) * 2 powi 971"
proof -
  from assms obtain seconds where p: "py_int ds = Inr seconds"
    and r: "(if 3600 < seconds then
               (case float_of_int seconds of Inl e \<Rightarrow> Inl e | Inr x \<Rightarrow> float_true_divide x 1000)
             else float_of_int seconds) = Inr v"
    by (auto simp: integer_seconds_def split: sum.splits)
  note n = py_int_Inr(3) [OF p]
  show ?thesis
  proof (cases "3600 < seconds")
    case True
    with r obtain x where x: "float_of_int seconds = Inr x" and d: "float_true_divide x 1000 = Inr v"
      by (auto split: sum.splits)
    from float_of_int_range [OF n x] d show ?thesis
      by (intro float_true_divide_range [of x]) simp_all
  next
    case False
    with r have "float_of_int seconds = Inr v" by simp
    from float_of_int_range [OF n this] show ?thesis by simp
  qed
qed

text \<open>
  Every value of the parser is a finite float: its sums and its quotient stay below the
  bound, so that no infinity arises in \<open>float_add\<close> and \<open>float_true_divide\<close>.
\<close>

lemma parse_latency_header_finite:
  assumes "parse_latency_header text = Some v"
  shows "0 \<le> v \<and> v < double_limit"
proof -
  from assms have "(\<exists>h m s f. hms_seconds h m s f = Inr v) \<or> (\<exists>s f. decimal_seconds s f = Inr v)
      \<or> (\<exists>ds. integer_seconds ds = Inr v)"
    by (auto simp: parse_latency_header_def latency_seconds_def
        split: if_splits option.splits sum.splits)
  then have "0 \<le> v \<and> v \<le> of_int (2 ^ 53 - 1) * 2 powi 971"
    using hms_seconds_range decimal_seconds_range integer_seconds_range by blast
  with max_double_below_limit show ?thesis
    by (simp only: double_limit_power) simp
qed

lemma two_digits_value:
  assumes "length ds \<le> 2" and "list_all is_digit ds"
  shows "0 \<le> int_of_digits ds" and "int_of_digits ds \<le> 99"
proof -
  note b = int_of_digits_bounds [OF assms(2)]
  from b show "0 \<le> int_of_digits ds" by simp
  have "(10::int) ^ length ds \<le> 10 ^ 2"
    using assms(1) by (intro power_increasing) simp_all
  with b show "int_of_digits ds \<le> 99" by simp
qed

lemma fractional_value_absent: "fractional_value ''0'' = Inr 0"
proof -
  have "fractional_value ''0'' = Inr (round_double (of_int (int_of_digits ''0'') / 10 ^ length ''0''))"
    by (rule fractional_value_digits) (simp_all add: is_digit_def)
  then show ?thesis
    by (simp add: int_of_digits_def round_double_zero)
qed

lemma hms_seconds_digits:
  assumes "length h = 1 \<or> length h = 2" and "list_all is_digit h"
    and "length m = 2" and "list_all is_digit m"
    and "length s = 2" and "list_all is_digit s"
  shows "hms_seconds h m s f =
     (case (if f \<noteq> [] then fractional_value f else Inr 0) of
        Inl e \<Rightarrow> Inl e
      | Inr fv \<Rightarrow>
          Inr (round_double
                 (of_int (int_of_digits h * 3600 + int_of_digits m * 60 + int_of_digits s) + fv)))"
proof -
  let ?n = "int_of_digits h * 3600 + int_of_digits m * 60 + int_of_digits s"
  have h: "py_int h = Inr (int_of_digits h)"
    using assms(1,2) by (intro py_int_digits) auto
  have m: "py_int m = Inr (int_of_digits m)"
    using assms(3,4) by (intro py_int_digits) auto
  have s: "py_int s = Inr (int_of_digits s)"
    using assms(5,6) by (intro py_int_digits) auto
  have "length h \<le> 2" using assms(1) by auto
  note bh = two_digits_value [OF this assms(2)]
  have "length m \<le> 2" using assms(3) by simp
  note bm = two_digits_value [OF this assms(4)]
  have "length s \<le> 2" using assms(5) by simp
  note bs = two_digits_value [OF this assms(6)]
  have "0 \<le> ?n" and "?n < 2 ^ 53"
    using bh bm bs by simp_all
  then have "float_of_int ?n = Inr (of_int ?n)"
    by (rule float_of_int_exact)
  then show ?thesis
    by (simp add: hms_seconds_def h m s int_add_float_def float_add_def split: sum.splits)
qed

lemma decimal_seconds_digits:
  assumes "a \<noteq> []" and "list_all is_digit a" and "length a \<le> 4300"
    and "b \<noteq> []" and "list_all is_digit b" and "length b \<le> 4300"
  shows "decimal_seconds a b =
     (if round_double (of_int (int_of_digits a)) < double_limit
      then Inr (round_double (round_double (of_int (int_of_digits a))
                              + round_double (of_int (int_of_digits b) / 10 ^ length b)))
      else Inl OverflowError)"
proof -
  have n: "0 \<le> int_of_digits a"
    using int_of_digits_bounds [OF assms(2)] by simp
  show ?thesis
    by (simp add: decimal_seconds_def py_int_digits [OF assms(1,2,3)]
        fractional_value_digits [OF assms(4,5,6)] int_add_float_def float_add_def
        float_of_int_nonneg [OF n])
qed

lemma integer_seconds_digits:
  assumes "ds \<noteq> []" and "list_all is_digit ds" and "length ds \<le> 4300"
  shows "integer_seconds ds =
     (if int_of_digits ds \<le> 3600 then Inr (of_int (int_of_digits ds))
      else if round_double (of_int (int_of_digits ds)) < double_limit
      then Inr (round_double (round_double (of_int (int_of_digits ds)) / 1000))
      else Inl OverflowError)"
proof (cases "int_of_digits ds \<le> 3600")
  case True
  have n: "0 \<le> int_of_digits ds"
    using int_of_digits_bounds [OF assms(2)] by simp
  from True have "int_of_digits ds < 2 ^ 53"
    by simp
  with n have "float_of_int (int_of_digits ds) = Inr (of_int (int_of_digits ds))"
    by (rule float_of_int_exact)
  with True show ?thesis
    by (simp add: integer_seconds_def py_int_digits [OF assms])
next
  case False
  have n: "0 \<le> int_of_digits ds"
    using int_of_digits_bounds [OF assms(2)] by simp
  from False show ?thesis
    by (simp add: integer_seconds_def py_int_digits [OF assms] float_of_int_nonneg [OF n]
        float_true_divide_def)
qed

lemma integer_seconds_overflow:
  assumes "double_limit \<le> of_int (int_of_digits ds)"
  shows "\<exists>e. integer_seconds ds = Inl e"
proof (cases "py_int ds")
  case (Inl e)
  then show ?thesis
    by (simp add: integer_seconds_def)
next
  case (Inr n)
  then have n: "n = int_of_digits ds"
    by (rule py_int_Inr(1))
  have "(3600::rat) < 2 powi 12"
    by simp
  also have "\<dots> \<le> 2 powi 1024"
    by (intro power_int_increasing) simp_all
  finally have "(of_int 3600 :: rat) < of_int (int_of_digits ds)"
    using assms by (simp only: double_limit_power)
  then have "3600 < int_of_digits ds"
    by (simp only: of_int_less_iff)
  then show ?thesis
    using Inr float_of_int_overflow [OF assms] by (simp add: integer_seconds_def n)
qed

lemma parse_latency_header_priority:
  "parse_latency_header text =
     (case re_search match_hms text of
        Some (h, m, s, f) \<Rightarrow> (case hms_seconds h m s f of Inl e \<Rightarrow> None | Inr v \<Rightarrow> Some v)
      | None \<Rightarrow>
          (case re_search match_decimal text of
             Some (a, b) \<Rightarrow> (case decimal_seconds a b of Inl e \<Rightarrow> None | Inr v \<Rightarrow> Some v)
           | None \<Rightarrow>
               (case re_search match_integer text of
                  Some ds \<Rightarrow> (case integer_seconds ds of Inl e \<Rightarrow> None | Inr v \<Rightarrow> Some v)
                | None \<Rightarrow> None)))"
proof (cases "text = []")
  case True
  then show ?thesis
    by (simp add: parse_latency_header_def match_hms_def match_decimal_def match_integer_def)
next
  case False
  then show ?thesis
    by (simp add: parse_latency_header_def latency_seconds_def split: option.splits sum.splits)
qed

lemma int_of_digits_nines: "int_of_digits (replicate n (CHR ''9'')) = 10 ^ n - 1"
proof (induction n)
  case 0
  then show ?case by (simp add: int_of_digits_def)
next
  case (Suc n)
  have "replicate (Suc n) (CHR ''9'') = replicate n (CHR ''9'') @ [CHR ''9'']"
    by (simp add: replicate_append_same)
  then show ?case
    by (simp add: int_of_digits_snoc Suc.IH)
qed

lemma nines_beyond_limit: "double_limit \<le> of_int (int_of_digits (replicate 310 (CHR ''9'')))"
proof -
  have "(2::int) ^ 1024 \<le> 10 ^ 310 - 1"
    by simp
  then have "(of_int (2 ^ 1024) :: rat) \<le> of_int (10 ^ 310 - 1)"
    by (simp only: of_int_le_iff)
  then show ?thesis
    by (simp only: double_limit_def int_of_digits_nines)
qed

text \<open>
  C4.  The parser uses the first pattern that occurs in the text, in the order
  HH:MM:SS[.fraction], seconds.fraction, bare integer: a later pattern is used only when
  no earlier one occurs anywhere in the text, and a text in which none occurs (a text
  without a digit) yields no value.  The values are those of Python's arithmetic on
  floats: hours * 3600 + minutes * 60 + seconds plus the fraction; seconds plus the
  fraction; and the integer, divided by 1000 when it is greater than 3600; each
  operation rounded to the nearest float.  In particular \<^verbatim>\<open>01:02:03.500\<close> gives 3723.5,
  \<^verbatim>\<open>45000\<close> gives 45 and \<^verbatim>\<open>12.250\<close> gives 12.25, while one second and a fraction of
  thirty nines gives 2.  A pattern that occurs yields no value only when the
  \<^verbatim>\<open>try\<close> block raises: for a run of more than 4300 digits, and for an integer whose
  nearest float is out of range, such as one of 310 nines.
\<close>

theorem latency_header_patterns_in_priority_order:
  "parse_latency_header ''01:02:03.500'' = Some 3723.5
   \<and> parse_latency_header ''45000'' = Some 45
   \<and> parse_latency_header ''12.250'' = Some 12.25
   \<and> parse_latency_header ''12.250 01:02:03.500'' = Some 3723.5
   \<and> parse_latency_header ''45000 12.250'' = Some 12.25
   \<and> parse_latency_header ''00:00:01.999999999999999999999999999999'' = Some 2
   \<and> parse_latency_header (replicate 310 (CHR ''9'')) = None
   \<and> (\<forall>h m s f. re_search match_hms text = Some (h, m, s, f) \<longrightarrow>
         parse_latency_header text
           = (case hms_seconds h m s f of Inl e \<Rightarrow> None | Inr v \<Rightarrow> Some v))
   \<and> (\<forall>a b. re_search match_hms text = None \<and> re_search match_decimal text = Some (a, b) \<longrightarrow>
         parse_latency_header text
           = (case decimal_seconds a b of Inl e \<Rightarrow> None | Inr v \<Rightarrow> Some v))
   \<and> (\<forall>ds. re_search match_hms text = None \<and> re_search match_decimal text = None
         \<and> re_search match_integer text = Some ds \<longrightarrow>
         parse_latency_header text
           = (case integer_seconds ds of Inl e \<Rightarrow> None | Inr v \<Rightarrow> Some v))
   \<and> (re_search match_hms text = None \<and> re_search match_decimal text = None
         \<and> re_search match_integer text = None \<longrightarrow> parse_latency_header text = None)
   \<and> ((\<forall>c \<in> set text. \<not> is_digit c) \<longrightarrow> parse_latency_header text = None)
   \<and> (\<forall>h m s. (length h = 1 \<or> length h = 2) \<and> length m = 2 \<and> length s = 2
         \<and> list_all is_digit h \<and> list_all is_digit m \<and> list_all is_digit s \<longrightarrow>
         parse_latency_header (h @ '':'' @ m @ '':'' @ s)
           = Some (of_int (int_of_digits h * 3600 + int_of_digits m * 60 + int_of_digits s)))
   \<and> (\<forall>h m s f. (length h = 1 \<or> length h = 2) \<and> length m = 2 \<and> length s = 2 \<and> f \<noteq> []
         \<and> list_all is_digit h \<and> list_all is_digit m \<and> list_all is_digit s
         \<and> list_all is_digit f \<longrightarrow>
         parse_latency_header (h @ '':'' @ m @ '':'' @ s @ ''.'' @ f)
           = (if length f \<le> 4300
              then Some (round_double
                     (of_int (int_of_digits h * 3600 + int_of_digits m * 60 + int_of_digits s)
                      + round_double (of_int (int_of_digits f) / 10 ^ length f)))
              else None))
   \<and> (\<forall>a b. a \<noteq> [] \<and> b \<noteq> [] \<and> list_all is_digit a \<and> list_all is_digit b
         \<and> length a \<le> 4300 \<and> length b \<le> 4300 \<longrightarrow>
         parse_latency_header (a @ ''.'' @ b)
           = (if round_double (of_int (int_of_digits a)) < double_limit
              then Some (round_double
                     (round_double (of_int (int_of_digits a))
                      + round_double (of_int (int_of_digits b) / 10 ^ length b)))
              else None))
   \<and> (\<forall>ds. ds \<noteq> [] \<and> list_all is_digit ds \<and> length ds \<le> 4300 \<longrightarrow>
         parse_latency_header ds
           = (if int_of_digits ds \<le> 3600 then Some (of_int (int_of_digits ds))
              else if round_double (of_int (int_of_digits ds)) < double_limit
              then Some (round_double (round_double (of_int (int_of_digits ds)) / 1000))
              else None))
   \<and> (\<forall>ds. ds \<noteq> [] \<and> list_all is_digit ds \<and> length ds \<le> 15 \<longrightarrow>
         parse_latency_header ds
           = Some (if 3600 < int_of_digits ds then round_double (of_int (int_of_digits ds) / 1000)
                   else of_int (int_of_digits ds)))
   \<and> (\<forall>ds. ds \<noteq> [] \<and> list_all is_digit ds \<and> double_limit \<le> of_int (int_of_digits ds) \<longrightarrow>
         parse_latency_header ds = None)"
proof (intro conjI allI impI)
  show "parse_latency_header ''01:02:03.500'' = Some 3723.5"
    by code_simp
  show "parse_latency_header ''45000'' = Some 45"
    by code_simp
  show "parse_latency_header ''12.250'' = Some 12.25"
    by code_simp
  show "parse_latency_header ''12.250 01:02:03.500'' = Some 3723.5"
    by code_simp
  show "parse_latency_header ''45000 12.250'' = Some 12.25"
    by code_simp
  show "parse_latency_header ''00:00:01.999999999999999999999999999999'' = Some 2"
    by code_simp
next
  let ?ds = "replicate 310 (CHR ''9'')"
  have d: "list_all is_digit ?ds"
    by (simp add: list_all_iff is_digit_def)
  have "re_search match_hms ?ds = None"
    by (rule search_hms_no_colon [OF digits_no_colon [OF d]])
  moreover have "re_search match_decimal ?ds = None"
    by (rule search_decimal_no_dot [OF digits_no_dot [OF d]])
  moreover have "re_search match_integer ?ds = Some ?ds"
    using d by (intro search_integer_digits) simp_all
  moreover obtain e where "integer_seconds ?ds = Inl e"
    using integer_seconds_overflow [OF nines_beyond_limit] by blast
  ultimately show "parse_latency_header ?ds = None"
    by (simp only: parse_latency_header_priority option.case sum.case)
next
  fix h m s f
  assume "re_search match_hms text = Some (h, m, s, f)"
  then show "parse_latency_header text
           = (case hms_seconds h m s f of Inl e \<Rightarrow> None | Inr v \<Rightarrow> Some v)"
    by (simp add: parse_latency_header_priority)
next
  fix a b
  assume "re_search match_hms text = None \<and> re_search match_decimal text = Some (a, b)"
  then show "parse_latency_header text
           = (case decimal_seconds a b of Inl e \<Rightarrow> None | Inr v \<Rightarrow> Some v)"
    by (simp add: parse_latency_header_priority)
next
  fix ds
  assume "re_search match_hms text = None \<and> re_search match_decimal text = None
         \<and> re_search match_integer text = Some ds"
  then show "parse_latency_header text
           = (case integer_seconds ds of Inl e \<Rightarrow> None | Inr v \<Rightarrow> Some v)"
    by (simp add: parse_latency_header_priority)
next
  assume "re_search match_hms text = None \<and> re_search match_decimal text = None
         \<and> re_search match_integer text = None"
  then show "parse_latency_header text = None"
    by (simp add: parse_latency_header_priority)
next
  assume "\<forall>c \<in> set text. \<not> is_digit c"
  then show "parse_latency_header text = None"
    by (simp add: parse_latency_header_priority no_digit_no_match)
next
  fix h m s :: string
  assume a: "(length h = 1 \<or> length h = 2) \<and> length m = 2 \<and> length s = 2
         \<and> list_all is_digit h \<and> list_all is_digit m \<and> list_all is_digit s"
  then have "re_search match_hms (h @ CHR '':'' # m @ CHR '':'' # s @ [])
      = Some (h, m, s, match_fraction [])"
    by (intro search_hms_at_start) simp_all
  moreover from a have "hms_seconds h m s ''0''
      = Inr (round_double
               (of_int (int_of_digits h * 3600 + int_of_digits m * 60 + int_of_digits s) + 0))"
    by (subst hms_seconds_digits) (simp_all add: fractional_value_absent)
  moreover have "round_double
        (of_int (int_of_digits h * 3600 + int_of_digits m * 60 + int_of_digits s))
      = of_int (int_of_digits h * 3600 + int_of_digits m * 60 + int_of_digits s)"
  proof (rule round_double_of_int)
    from a have "length h \<le> 2" "length m \<le> 2" "length s \<le> 2"
      by auto
    with a have "0 \<le> int_of_digits h \<and> int_of_digits h \<le> 99"
      and "0 \<le> int_of_digits m \<and> int_of_digits m \<le> 99"
      and "0 \<le> int_of_digits s \<and> int_of_digits s \<le> 99"
      by (simp_all add: two_digits_value)
    then show "0 \<le> int_of_digits h * 3600 + int_of_digits m * 60 + int_of_digits s"
      and "int_of_digits h * 3600 + int_of_digits m * 60 + int_of_digits s < 2 ^ 53"
      by simp_all
  qed
  ultimately show "parse_latency_header (h @ '':'' @ m @ '':'' @ s)
           = Some (of_int (int_of_digits h * 3600 + int_of_digits m * 60 + int_of_digits s))"
    by (simp add: parse_latency_header_priority match_fraction_none)
next
  fix h m s f :: string
  assume a: "(length h = 1 \<or> length h = 2) \<and> length m = 2 \<and> length s = 2 \<and> f \<noteq> []
         \<and> list_all is_digit h \<and> list_all is_digit m \<and> list_all is_digit s
         \<and> list_all is_digit f"
  then have "re_search match_hms (h @ CHR '':'' # m @ CHR '':'' # s @ CHR ''.'' # f)
      = Some (h, m, s, match_fraction (CHR ''.'' # f))"
    by (intro search_hms_at_start) simp_all
  moreover from a have "match_fraction (CHR ''.'' # f) = f"
    by (intro match_fraction_digits) simp_all
  moreover from a have "hms_seconds h m s f =
     (case fractional_value f of
        Inl e \<Rightarrow> Inl e
      | Inr fv \<Rightarrow>
          Inr (round_double
                 (of_int (int_of_digits h * 3600 + int_of_digits m * 60 + int_of_digits s) + fv)))"
    by (subst hms_seconds_digits) simp_all
  moreover have "fractional_value f
      = (if length f \<le> 4300
         then Inr (round_double (of_int (int_of_digits f) / 10 ^ length f))
         else Inl ValueError)"
    using a by (simp add: fractional_value_digits fractional_value_long)
  ultimately show "parse_latency_header (h @ '':'' @ m @ '':'' @ s @ ''.'' @ f)
           = (if length f \<le> 4300
              then Some (round_double
                     (of_int (int_of_digits h * 3600 + int_of_digits m * 60 + int_of_digits s)
                      + round_double (of_int (int_of_digits f) / 10 ^ length f)))
              else None)"
    by (simp add: parse_latency_header_priority)
next
  fix a b :: string
  assume h: "a \<noteq> [] \<and> b \<noteq> [] \<and> list_all is_digit a \<and> list_all is_digit b
         \<and> length a \<le> 4300 \<and> length b \<le> 4300"
  then have "CHR '':'' \<notin> set (a @ CHR ''.'' # b)"
    using digits_no_colon [of a] digits_no_colon [of b] by simp
  then have "re_search match_hms (a @ CHR ''.'' # b) = None"
    by (rule search_hms_no_colon)
  moreover from h have "re_search match_decimal (a @ CHR ''.'' # b) = Some (a, b)"
    by (intro search_decimal_digits) simp_all
  moreover from h have "decimal_seconds a b =
     (if round_double (of_int (int_of_digits a)) < double_limit
      then Inr (round_double (round_double (of_int (int_of_digits a))
                              + round_double (of_int (int_of_digits b) / 10 ^ length b)))
      else Inl OverflowError)"
    by (intro decimal_seconds_digits) simp_all
  ultimately show "parse_latency_header (a @ ''.'' @ b)
           = (if round_double (of_int (int_of_digits a)) < double_limit
              then Some (round_double
                     (round_double (of_int (int_of_digits a))
                      + round_double (of_int (int_of_digits b) / 10 ^ length b)))
              else None)"
    by (simp add: parse_latency_header_priority)
next
  fix ds :: string
  assume h: "ds \<noteq> [] \<and> list_all is_digit ds \<and> length ds \<le> 4300"
  then have "re_search match_hms ds = None" and "re_search match_decimal ds = None"
    using digits_no_colon [of ds] digits_no_dot [of ds]
    by (simp_all add: search_hms_no_colon search_decimal_no_dot)
  moreover from h have "re_search match_integer ds = Some ds"
    by (intro search_integer_digits) simp_all
  moreover from h have "integer_seconds ds =
     (if int_of_digits ds \<le> 3600 then Inr (of_int (int_of_digits ds))
      else if round_double (of_int (int_of_digits ds)) < double_limit
      then Inr (round_double (round_double (of_int (int_of_digits ds)) / 1000))
      else Inl OverflowError)"
    by (intro integer_seconds_digits) simp_all
  ultimately show "parse_latency_header ds
           = (if int_of_digits ds \<le> 3600 then Some (of_int (int_of_digits ds))
              else if round_double (of_int (int_of_digits ds)) < double_limit
              then Some (round_double (round_double (of_int (int_of_digits ds)) / 1000))
              else None)"
    by (simp add: parse_latency_header_priority)
next
  fix ds :: string
  assume h: "ds \<noteq> [] \<and> list_all is_digit ds \<and> length ds \<le> 15"
  then have "re_search match_hms ds = None" and "re_search match_decimal ds = None"
    using digits_no_colon [of ds] digits_no_dot [of ds]
    by (simp_all add: search_hms_no_colon search_decimal_no_dot)
  moreover from h have "re_search match_integer ds = Some ds"
    by (intro search_integer_digits) simp_all
  moreover from h have "integer_seconds ds =
     (if int_of_digits ds \<le> 3600 then Inr (of_int (int_of_digits ds))
      else if round_double (of_int (int_of_digits ds)) < double_limit
      then Inr (round_double (round_double (of_int (int_of_digits ds)) / 1000))
      else Inl OverflowError)"
    by (intro integer_seconds_digits) simp_all
  moreover have "round_double (of_int (int_of_digits ds)) = of_int (int_of_digits ds)"
    and "(of_int (int_of_digits ds) :: rat) < double_limit"
  proof -
    from h have b: "0 \<le> int_of_digits ds" "int_of_digits ds < 10 ^ length ds"
      using int_of_digits_bounds [of ds] by simp_all
    have "(10::int) ^ length ds \<le> 10 ^ 15"
      using h by (intro power_increasing) simp_all
    with b(2) have lt: "int_of_digits ds < 2 ^ 53"
      by simp
    with b(1) show r: "round_double (of_int (int_of_digits ds)) = of_int (int_of_digits ds)"
      by (rule round_double_of_int)
    from float_of_int_exact [OF b(1) lt] show "(of_int (int_of_digits ds) :: rat) < double_limit"
      by (simp add: float_of_int_nonneg [OF b(1)] r split: if_splits)
  qed
  ultimately show "parse_latency_header ds
           = Some (if 3600 < int_of_digits ds then round_double (of_int (int_of_digits ds) / 1000)
                   else of_int (int_of_digits ds))"
    by (simp add: parse_latency_header_priority)
next
  fix ds :: string
  assume h: "ds \<noteq> [] \<and> list_all is_digit ds \<and> double_limit \<le> of_int (int_of_digits ds)"
  then have "re_search match_hms ds = None" and "re_search match_decimal ds = None"
    using digits_no_colon [of ds] digits_no_dot [of ds]
    by (simp_all add: search_hms_no_colon search_decimal_no_dot)
  moreover from h have "re_search match_integer ds = Some ds"
    by (intro search_integer_digits) simp_all
  moreover from h obtain e where "integer_seconds ds = Inl e"
    using integer_seconds_overflow by blast
  ultimately show "parse_latency_header ds = None"
    by (simp add: parse_latency_header_priority)
qed

theorem latency_header_patterns_in_priority_order_witness:
  "parse_latency_header ''7500'' = Some 7.5
   \<and> parse_latency_header ''1:02:03'' = Some 3723
   \<and> parse_latency_header ''1:02:03.25'' = Some 3723.25
   \<and> parse_latency_header ''0.5'' = Some 0.5
   \<and> parse_latency_header ''3601'' = Some (4054365564540289 / 1125899906842624)
   \<and> parse_latency_header (replicate 400 (CHR ''9'')) = None
   \<and> parse_latency_header ''n/a'' = None
   \<and> parse_latency_header ''--'' = None
   \<and> parse_latency_header ''up 1:02:03 or 9.5'' = Some 3723
   \<and> parse_latency_header ''45 or 9.5'' = Some 9.5
   \<and> parse_latency_header ''about 45 s'' = Some 45"
proof (intro conjI)
  note th = latency_header_patterns_in_priority_order
  note shapes = th [THEN conjunct2, THEN conjunct2, THEN conjunct2, THEN conjunct2, THEN conjunct2,
      THEN conjunct2, THEN conjunct2, THEN conjunct2, THEN conjunct2, THEN conjunct2,
      THEN conjunct2, THEN conjunct2]
  note order = th [THEN conjunct2, THEN conjunct2, THEN conjunct2, THEN conjunct2, THEN conjunct2,
      THEN conjunct2, THEN conjunct2]
  have "''7500'' \<noteq> [] \<and> list_all is_digit ''7500'' \<and> length ''7500'' \<le> 15"
    by (simp add: is_digit_def)
  then have e: "parse_latency_header ''7500'' = Some (round_double (15 / 2))"
    using shapes [THEN conjunct2, THEN conjunct2, THEN conjunct2, THEN conjunct2,
        THEN conjunct1, rule_format, of "''7500''"]
    by (simp add: int_of_digits_def)
  have r: "round_double (15 / 2) = 15 / 2"
    by code_simp
  show "parse_latency_header ''7500'' = Some 7.5"
    unfolding e r by simp
  have "(length ''1'' = 1 \<or> length ''1'' = 2) \<and> length ''02'' = 2 \<and> length ''03'' = 2
         \<and> list_all is_digit ''1'' \<and> list_all is_digit ''02'' \<and> list_all is_digit ''03''"
    by (simp add: is_digit_def)
  then show "parse_latency_header ''1:02:03'' = Some 3723"
    using shapes [THEN conjunct1, rule_format, of "''1''" "''02''" "''03''"]
    by (simp add: int_of_digits_def)
  have "(length ''1'' = 1 \<or> length ''1'' = 2) \<and> length ''02'' = 2 \<and> length ''03'' = 2
         \<and> ''25'' \<noteq> []
         \<and> list_all is_digit ''1'' \<and> list_all is_digit ''02'' \<and> list_all is_digit ''03''
         \<and> list_all is_digit ''25''"
    by (simp add: is_digit_def)
  then have e: "parse_latency_header ''1:02:03.25'' = Some (round_double (3723 + round_double (1 / 4)))"
    using shapes [THEN conjunct2, THEN conjunct1, rule_format,
        of "''1''" "''02''" "''03''" "''25''"]
    by (simp add: int_of_digits_def)
  have r1: "round_double (1 / 4) = 1 / 4"
    by code_simp
  have r2: "round_double (3723 + 1 / 4) = 14893 / 4"
    by code_simp
  show "parse_latency_header ''1:02:03.25'' = Some 3723.25"
    unfolding e r1 r2 by simp
  have "''0'' \<noteq> [] \<and> ''5'' \<noteq> [] \<and> list_all is_digit ''0'' \<and> list_all is_digit ''5''
         \<and> length ''0'' \<le> 4300 \<and> length ''5'' \<le> 4300"
    by (simp add: is_digit_def)
  then have e: "parse_latency_header ''0.5'' = Some (round_double (round_double (1 / 2)))"
    using shapes [THEN conjunct2, THEN conjunct2, THEN conjunct1, rule_format,
        of "''0''" "''5''"]
    by (simp add: int_of_digits_def round_double_zero double_limit_def)
  have r: "round_double (1 / 2) = 1 / 2"
    by code_simp
  show "parse_latency_header ''0.5'' = Some 0.5"
    unfolding e r by simp
  have r1: "round_double 3601 = 3601"
    by code_simp
  have r2: "round_double (3601 / 1000) = 4054365564540289 / 1125899906842624"
    by code_simp
  have "''3601'' \<noteq> [] \<and> list_all is_digit ''3601'' \<and> length ''3601'' \<le> 4300"
    by (simp add: is_digit_def)
  then have e: "parse_latency_header ''3601'' = Some (round_double (round_double 3601 / 1000))"
    using shapes [THEN conjunct2, THEN conjunct2, THEN conjunct2, THEN conjunct1,
        rule_format, of "''3601''"]
    by (simp add: int_of_digits_def double_limit_def r1)
  show "parse_latency_header ''3601'' = Some (4054365564540289 / 1125899906842624)"
    unfolding e r1 r2 by simp
  have "(2::int) ^ 1024 \<le> 10 ^ 400 - 1"
    by simp
  then have "(of_int (2 ^ 1024) :: rat) \<le> of_int (10 ^ 400 - 1)"
    by (simp only: of_int_le_iff)
  then have "double_limit \<le> of_int (int_of_digits (replicate 400 (CHR ''9'')))"
    by (simp only: double_limit_def int_of_digits_nines)
  moreover have "replicate 400 (CHR ''9'') \<noteq> [] \<and> list_all is_digit (replicate 400 (CHR ''9''))"
    by (simp add: list_all_iff is_digit_def)
  ultimately show "parse_latency_header (replicate 400 (CHR ''9'')) = None"
    using shapes [THEN conjunct2, THEN conjunct2, THEN conjunct2, THEN conjunct2,
        THEN conjunct2, rule_format, of "replicate 400 (CHR ''9'')"]
    by blast
  have "\<forall>c \<in> set ''n/a''. \<not> is_digit c"
    by (simp add: is_digit_def)
  then show "parse_latency_header ''n/a'' = None"
    by (rule order [of "''n/a''", THEN conjunct2, THEN conjunct2, THEN conjunct2, THEN conjunct2,
          THEN conjunct1, THEN mp])
  have "re_search match_hms ''--'' = None \<and> re_search match_decimal ''--'' = None
         \<and> re_search match_integer ''--'' = None"
    by code_simp
  then show "parse_latency_header ''--'' = None"
    by (rule order [of "''--''", THEN conjunct2, THEN conjunct2, THEN conjunct2, THEN conjunct1,
          THEN mp])
  have "re_search match_hms ''up 1:02:03 or 9.5'' = Some (''1'', ''02'', ''03'', ''0'')"
    by code_simp
  moreover have "hms_seconds ''1'' ''02'' ''03'' ''0'' = Inr 3723"
    by code_simp
  ultimately show "parse_latency_header ''up 1:02:03 or 9.5'' = Some 3723"
    using order [of "''up 1:02:03 or 9.5''", THEN conjunct1, rule_format,
        of "''1''" "''02''" "''03''" "''0''"]
    by simp
  have "re_search match_hms ''45 or 9.5'' = None
         \<and> re_search match_decimal ''45 or 9.5'' = Some (''9'', ''5'')"
    by code_simp
  moreover have "decimal_seconds ''9'' ''5'' = Inr (19 / 2)"
    by code_simp
  ultimately show "parse_latency_header ''45 or 9.5'' = Some 9.5"
    using order [of "''45 or 9.5''", THEN conjunct2, THEN conjunct1, rule_format,
        of "''9''" "''5''"]
    by simp
  have "re_search match_hms ''about 45 s'' = None \<and> re_search match_decimal ''about 45 s'' = None
         \<and> re_search match_integer ''about 45 s'' = Some ''45''"
    by code_simp
  moreover have "integer_seconds ''45'' = Inr 45"
    by code_simp
  ultimately show "parse_latency_header ''about 45 s'' = Some 45"
    using order [of "''about 45 s''", THEN conjunct2, THEN conjunct2, THEN conjunct1, rule_format,
        of "''45''"]
    by simp
qed

end
